theory Spec2Isabelle
  imports Main "HOL-Library.Sublist"
begin

section \<open>JavaScript strings\<close>

text \<open>
  A JavaScript string is a sequence of UTF-16 code units. The model uses \<^typ>\<open>string\<close>,
  whose characters are the code units below 256 (Latin-1); every literal of
  \<^verbatim>\<open>find-unused.mjs\<close> that the functions below use is ASCII.
\<close>

text \<open>
  The characters matched by \<^verbatim>\<open>\s\<close> and removed by \<^verbatim>\<open>trim()\<close>: WhiteSpace and
  LineTerminator of the language definition, restricted to the code units below 256
  (TAB, LF, VT, FF, CR, SPACE, NBSP).
\<close>

definition isWhiteSpace :: "char \<Rightarrow> bool" where
  "isWhiteSpace c = (c \<in> {CHR 0x09, CHR 0x0A, CHR 0x0B, CHR 0x0C, CHR 0x0D, CHR 0x20, CHR 0xA0})"

definition isLineTerminator :: "char \<Rightarrow> bool" where
  "isLineTerminator c = (c = CHR 0x0A \<or> c = CHR 0x0D)"

definition in_range :: "char \<Rightarrow> char \<Rightarrow> char \<Rightarrow> bool" where
  "in_range lo hi c = ((of_char lo :: nat) \<le> of_char c \<and> (of_char c :: nat) \<le> of_char hi)"

definition isDigit :: "char \<Rightarrow> bool" where
  "isDigit c = in_range CHR ''0'' CHR ''9'' c"

definition isWordChar :: "char \<Rightarrow> bool" where
  "isWordChar c = (in_range CHR ''a'' CHR ''z'' c \<or> in_range CHR ''A'' CHR ''Z'' c
      \<or> isDigit c \<or> c = CHR ''_'')"

text \<open>\<^verbatim>\<open>toUpperCase\<close> and \<^verbatim>\<open>toLowerCase\<close> of one code unit, where the result is again one
  code unit below 256; other characters are left alone.\<close>

definition toUpperCase :: "char \<Rightarrow> char" where
  "toUpperCase c =
     (if in_range CHR ''a'' CHR ''z'' c \<or> (in_range CHR 0xE0 CHR 0xFE c \<and> c \<noteq> CHR 0xF7)
      then char_of ((of_char c :: nat) - 32) else c)"

definition toLowerCase :: "char \<Rightarrow> char" where
  "toLowerCase c =
     (if in_range CHR ''A'' CHR ''Z'' c \<or> (in_range CHR 0xC0 CHR 0xDE c \<and> c \<noteq> CHR 0xD7)
      then char_of ((of_char c :: nat) + 32) else c)"

text \<open>\<^verbatim>\<open>s.trim()\<close>\<close>

definition trim :: "string \<Rightarrow> string" where
  "trim s = rev (dropWhile isWhiteSpace (rev (dropWhile isWhiteSpace s)))"

text \<open>\<^verbatim>\<open>s.startsWith(p)\<close> is \<^term>\<open>prefix p s\<close> and \<^verbatim>\<open>s.endsWith(p)\<close> is
  \<^term>\<open>suffix p s\<close>. \<^verbatim>\<open>s.slice(1, -1)\<close>:\<close>

definition slice_1_m1 :: "string \<Rightarrow> string" where
  "slice_1_m1 s = butlast (tl s)"

text \<open>\<^verbatim>\<open>s.split(sep)\<close> for a string separator: the pieces between the occurrences of
  \<open>sep\<close>, found from left to right without overlap. An empty separator splits into
  the single code units.\<close>

fun split_at :: "string \<Rightarrow> string \<Rightarrow> string list" where
  "split_at sep [] = [[]]"
| "split_at sep (c # cs) =
     (if prefix sep (c # cs) then [] # split_at sep (drop (length sep - 1) cs)
      else (case split_at sep cs of
              [] \<Rightarrow> [[c]]
            | p # ps \<Rightarrow> (c # p) # ps))"

definition String_split :: "string \<Rightarrow> string \<Rightarrow> string list" where
  "String_split s sep = (if sep = [] then map (\<lambda>c. [c]) s else split_at sep s)"

text \<open>\<^verbatim>\<open>xs.join(v)\<close>\<close>

fun Array_join :: "string list \<Rightarrow> string \<Rightarrow> string" where
  "Array_join [] v = []"
| "Array_join [x] v = x"
| "Array_join (x # y # ys) v = x @ v @ Array_join (y # ys) v"


section \<open>Regular expressions of the JavaScript runtime\<close>

text \<open>
  \<^verbatim>\<open>RegExp\<close> is part of the language, not of the repository. The model below covers the
  pattern grammar of ECMAScript without the \<^verbatim>\<open>u\<close> and \<^verbatim>\<open>v\<close> flags, with the
  web-compatibility rules of Annex B (a brace or a closing bracket that opens no
  quantifier or class is a literal; any escaped character that has no other meaning
  stands for itself): disjunction, sequence, greedy and lazy quantifiers,
  capturing and non-capturing groups, character classes with ranges and class escapes,
  the dot, and the assertions \<^verbatim>\<open>^\<close>, \<^verbatim>\<open>$\<close>, \<^verbatim>\<open>\b\<close>, \<^verbatim>\<open>\B\<close>. Every regular expression
  that \<^verbatim>\<open>find-unused.mjs\<close> writes or generates is inside this grammar. Groups that
  start with \<^verbatim>\<open>(?\<close> other than \<^verbatim>\<open>(?:\<close> (look-around, named groups, modifiers),
  back-references, the escapes \<^verbatim>\<open>\c\<close>, \<^verbatim>\<open>\x\<close>, \<^verbatim>\<open>\u\<close>, \<^verbatim>\<open>\k\<close>, octal escapes and
  the flags \<^verbatim>\<open>u\<close> and \<^verbatim>\<open>v\<close> are outside it: for a pattern or flags with one of these
  the model says \<open>Unsupported\<close>, which is no statement about the pattern, and whether
  it compiles and what it matches is left to the engine (see \<open>engine\<close> below).
\<close>

datatype cclass = Digit | Word | Space

datatype citem = CChar char | CRange char char | CClass cclass | CNotClass cclass

datatype regex =
    REmpty
  | RChar char
  | RDot
  | RSet bool "citem list"
  | RBol
  | REol
  | RWordB bool
  | RGroup nat regex
  | RSeq regex regex
  | RAlt regex regex
  | RRep nat "nat option" bool regex

record rflags =
  hasIndices :: bool
  global :: bool
  ignoreCase :: bool
  multiline :: bool
  dotAll :: bool
  sticky :: bool

subsection \<open>Matching\<close>

fun cclass_mem :: "cclass \<Rightarrow> char \<Rightarrow> bool" where
  "cclass_mem Digit c = isDigit c"
| "cclass_mem Word c = isWordChar c"
| "cclass_mem Space c = isWhiteSpace c"

fun citem_mem :: "citem \<Rightarrow> char \<Rightarrow> bool" where
  "citem_mem (CChar a) c = (a = c)"
| "citem_mem (CRange lo hi) c = in_range lo hi c"
| "citem_mem (CClass k) c = cclass_mem k c"
| "citem_mem (CNotClass k) c = (\<not> cclass_mem k c)"

text \<open>
  Canonicalize of the language definition compares upper-cased code units when
  \<^verbatim>\<open>ignoreCase\<close> is set. Below 256 the code units with the same canonical form as \<open>c\<close>
  are \<open>c\<close>, its upper case and its lower case, so a set contains a character with the
  canonical form of \<open>c\<close> iff it contains one of these.
\<close>

definition char_eq :: "rflags \<Rightarrow> char \<Rightarrow> char \<Rightarrow> bool" where
  "char_eq fl a c = (if ignoreCase fl then toUpperCase a = toUpperCase c else a = c)"

definition set_mem :: "rflags \<Rightarrow> citem list \<Rightarrow> char \<Rightarrow> bool" where
  "set_mem fl items c =
     (\<exists>x \<in> set items. citem_mem x c
        \<or> (ignoreCase fl \<and> (citem_mem x (toUpperCase c) \<or> citem_mem x (toLowerCase c))))"

text \<open>
  A match state is the character before the current position (for \<^verbatim>\<open>^\<close> under
  \<^verbatim>\<open>multiline\<close> and for \<^verbatim>\<open>\b\<close>), the input from the current position on, and the
  captures (group number and captured text; an unset group has no entry).
\<close>

type_synonym captures = "(nat \<times> string) list"
type_synonym mstate = "char option \<times> string \<times> captures"

fun groups_of :: "regex \<Rightarrow> nat list" where
  "groups_of (RGroup n r) = n # groups_of r"
| "groups_of (RSeq a b) = groups_of a @ groups_of b"
| "groups_of (RAlt a b) = groups_of a @ groups_of b"
| "groups_of (RRep mn mx g r) = groups_of r"
| "groups_of r = []"

definition clear_caps :: "nat list \<Rightarrow> captures \<Rightarrow> captures" where
  "clear_caps ns cp = filter (\<lambda>(n, t). n \<notin> set ns) cp"

definition is_word_at :: "char option \<Rightarrow> bool" where
  "is_word_at pv = (case pv of None \<Rightarrow> False | Some c \<Rightarrow> isWordChar c)"

fun rsize :: "regex \<Rightarrow> nat" where
  "rsize (RGroup n r) = Suc (rsize r)"
| "rsize (RSeq a b) = Suc (rsize a + rsize b)"
| "rsize (RAlt a b) = Suc (rsize a + rsize b)"
| "rsize (RRep mn mx g r) = Suc (rsize r)"
| "rsize r = 0"

fun rep_min :: "regex \<Rightarrow> nat" where
  "rep_min (RRep mn mx g r) = mn"
| "rep_min r = 0"

text \<open>
  The backtracking matcher of the language definition, as the list of the states in
  which a match of \<open>r\<close> from the given state can end, in the order in which backtracking
  tries them: the head is the match the runtime reports. A repetition follows
  RepeatMatcher: captures of the repeated part are cleared before each round, a round
  that consumes nothing ends the repetition once the minimum is reached (the end of a
  match is never before its start, so "not shorter" below is "same end index"), a greedy
  repetition tries one more round before stopping and a lazy one after.
\<close>

function rmatch :: "rflags \<Rightarrow> regex \<Rightarrow> mstate \<Rightarrow> mstate list" where
  "rmatch fl REmpty st = [st]"
| "rmatch fl (RChar a) (pv, rest, cp) =
     (case rest of [] \<Rightarrow> []
      | c # cs \<Rightarrow> if char_eq fl a c then [(Some c, cs, cp)] else [])"
| "rmatch fl RDot (pv, rest, cp) =
     (case rest of [] \<Rightarrow> []
      | c # cs \<Rightarrow> if dotAll fl \<or> \<not> isLineTerminator c then [(Some c, cs, cp)] else [])"
| "rmatch fl (RSet ng items) (pv, rest, cp) =
     (case rest of [] \<Rightarrow> []
      | c # cs \<Rightarrow> if set_mem fl items c \<noteq> ng then [(Some c, cs, cp)] else [])"
| "rmatch fl RBol (pv, rest, cp) =
     (case pv of None \<Rightarrow> [(pv, rest, cp)]
      | Some p \<Rightarrow> if multiline fl \<and> isLineTerminator p then [(pv, rest, cp)] else [])"
| "rmatch fl REol (pv, rest, cp) =
     (case rest of [] \<Rightarrow> [(pv, rest, cp)]
      | c # cs \<Rightarrow> if multiline fl \<and> isLineTerminator c then [(pv, rest, cp)] else [])"
| "rmatch fl (RWordB ng) (pv, rest, cp) =
     (if (is_word_at pv \<noteq> is_word_at (case rest of [] \<Rightarrow> None | c # cs \<Rightarrow> Some c)) \<noteq> ng
      then [(pv, rest, cp)] else [])"
| "rmatch fl (RGroup n r) (pv, rest, cp) =
     map (\<lambda>(pv', rest', cp').
            (pv', rest', (n, take (length rest - length rest') rest) # clear_caps [n] cp'))
         (rmatch fl r (pv, rest, cp))"
| "rmatch fl (RSeq a b) st = concat (map (rmatch fl b) (rmatch fl a st))"
| "rmatch fl (RAlt a b) st = rmatch fl a st @ rmatch fl b st"
| "rmatch fl (RRep mn mx g r) (pv, rest, cp) =
     (if mx = Some 0 then [(pv, rest, cp)]
      else if mn \<noteq> 0 then
        concat (map (\<lambda>(pv', rest', cp').
                       rmatch fl (RRep (mn - 1) (map_option (\<lambda>k. k - 1) mx) g r) (pv', rest', cp'))
                    (rmatch fl r (pv, rest, clear_caps (groups_of r) cp)))
      else if g then
        concat (map (\<lambda>(pv', rest', cp').
                       if length rest' < length rest
                       then rmatch fl (RRep 0 (map_option (\<lambda>k. k - 1) mx) g r) (pv', rest', cp')
                       else [])
                    (rmatch fl r (pv, rest, clear_caps (groups_of r) cp)))
        @ [(pv, rest, cp)]
      else
        (pv, rest, cp) #
        concat (map (\<lambda>(pv', rest', cp').
                       if length rest' < length rest
                       then rmatch fl (RRep 0 (map_option (\<lambda>k. k - 1) mx) g r) (pv', rest', cp')
                       else [])
                    (rmatch fl r (pv, rest, clear_caps (groups_of r) cp))))"
  by pat_completeness auto
termination
  by (relation "measures [\<lambda>(fl, r, st). rsize r, \<lambda>(fl, r, st). rep_min r,
                          \<lambda>(fl, r, pv, rest, cp). length rest]") auto


subsection \<open>Every match consumes at least the minimal length of the pattern\<close>

definition rep_count :: "nat \<Rightarrow> nat option \<Rightarrow> nat" where
  "rep_count mn mx = (case mx of None \<Rightarrow> mn | Some m \<Rightarrow> min mn m)"

fun min_len :: "regex \<Rightarrow> nat" where
  "min_len REmpty = 0"
| "min_len (RChar a) = 1"
| "min_len RDot = 1"
| "min_len (RSet ng items) = 1"
| "min_len RBol = 0"
| "min_len REol = 0"
| "min_len (RWordB ng) = 0"
| "min_len (RGroup n r) = min_len r"
| "min_len (RSeq a b) = min_len a + min_len b"
| "min_len (RAlt a b) = min (min_len a) (min_len b)"
| "min_len (RRep mn mx g r) = rep_count mn mx * min_len r"

lemma rep_count_dec:
  "mx \<noteq> Some 0 \<Longrightarrow> mn \<noteq> 0 \<Longrightarrow>
   rep_count mn mx = Suc (rep_count (mn - 1) (map_option (\<lambda>k. k - 1) mx))"
  by (cases mx) (auto simp: rep_count_def)

lemma rep_count_0 [simp]: "rep_count 0 mx = 0"
  by (cases mx) (auto simp: rep_count_def)

lemmas rmatch_RRep = rmatch.simps(11)
declare rmatch.simps(11) [simp del]


lemma rmatch_min_len:
  "st' \<in> set (rmatch fl r st) \<Longrightarrow> length (fst (snd st')) + min_len r \<le> length (fst (snd st))"
proof (induction fl r st arbitrary: st' rule: rmatch.induct)
  case (11 fl mn mx g r pv rest cp)
  from "11.prems" have prem: "st' \<in> set
     (if mx = Some 0 then [(pv, rest, cp)]
      else if mn \<noteq> 0 then
        concat (map (\<lambda>(pv', rest', cp').
                       rmatch fl (RRep (mn - 1) (map_option (\<lambda>k. k - 1) mx) g r) (pv', rest', cp'))
                    (rmatch fl r (pv, rest, clear_caps (groups_of r) cp)))
      else if g then
        concat (map (\<lambda>(pv', rest', cp').
                       if length rest' < length rest
                       then rmatch fl (RRep 0 (map_option (\<lambda>k. k - 1) mx) g r) (pv', rest', cp')
                       else [])
                    (rmatch fl r (pv, rest, clear_caps (groups_of r) cp)))
        @ [(pv, rest, cp)]
      else
        (pv, rest, cp) #
        concat (map (\<lambda>(pv', rest', cp').
                       if length rest' < length rest
                       then rmatch fl (RRep 0 (map_option (\<lambda>k. k - 1) mx) g r) (pv', rest', cp')
                       else [])
                    (rmatch fl r (pv, rest, clear_caps (groups_of r) cp))))"
    by (subst (asm) rmatch_RRep)
  show ?case
  proof (cases "mx = Some 0")
    case True
    with prem show ?thesis by (simp add: rep_count_def)
  next
    case nz: False
    show ?thesis
    proof (cases "mn = 0")
      case False
      with prem nz obtain x where
        x: "x \<in> set (rmatch fl r (pv, rest, clear_caps (groups_of r) cp))"
        and s: "st' \<in> set (rmatch fl (RRep (mn - 1) (map_option (\<lambda>k. k - 1) mx) g r) x)"
        by (auto split: prod.splits)
      obtain xa xb ya where xe: "x = (xa, xb, ya)" by (cases x) auto
      from "11.IH"(1) [OF nz False x] have a: "length xb + min_len r \<le> length rest"
        by (simp add: xe)
      have b: "length (fst (snd st')) + min_len (RRep (mn - 1) (map_option (\<lambda>k. k - 1) mx) g r)
                 \<le> length xb"
        using "11.IH"(2) [OF nz False x xe [symmetric] refl s [unfolded xe]] by simp
      have "min_len (RRep mn mx g r) = min_len r + min_len (RRep (mn - 1) (map_option (\<lambda>k. k - 1) mx) g r)"
        by (simp add: rep_count_dec [OF nz False])
      with a b show ?thesis by simp
    next
      case True
      show ?thesis
      proof (cases "st' = (pv, rest, cp)")
        case True
        with \<open>mn = 0\<close> show ?thesis by simp
      next
        case ne: False
        with prem nz True obtain x where
          x: "x \<in> set (rmatch fl r (pv, rest, clear_caps (groups_of r) cp))"
          and l: "length (fst (snd x)) < length rest"
          and s: "st' \<in> set (rmatch fl (RRep 0 (map_option (\<lambda>k. k - 1) mx) g r) x)"
          by (cases g) (auto split: prod.splits if_splits)
        obtain xa xb ya where xe: "x = (xa, xb, ya)" by (cases x) auto
        from l xe have l': "length xb < length rest" by simp
        have nn: "\<not> mn \<noteq> 0" using True by simp
        have "length (fst (snd st')) + min_len (RRep 0 (map_option (\<lambda>k. k - 1) mx) g r)
                \<le> length (fst (snd (xa, xb, ya)))"
        proof (cases g)
          case True
          show ?thesis
            by (rule "11.IH"(4) [OF nz nn True x xe [symmetric] refl l' s [unfolded xe]])
        next
          case False
          show ?thesis
            by (rule "11.IH"(6) [OF nz nn False x xe [symmetric] refl l' s [unfolded xe]])
        qed
        with l' \<open>mn = 0\<close> show ?thesis by simp
      qed
    qed
  qed
next
  case (9 fl a b st)
  from "9.prems" obtain x where x: "x \<in> set (rmatch fl a st)" and s: "st' \<in> set (rmatch fl b x)"
    by auto
  from "9.IH"(1) [OF x] "9.IH"(2) [OF x s] show ?case by simp
next
  case (10 fl a b st)
  from "10.prems" "10.IH"(1) [of st'] "10.IH"(2) [of st'] show ?case by auto
next
  case (8 fl n r pv rest cp)
  then show ?case by auto
next
  case (1 fl st) then show ?case by simp
next
  case (2 fl a pv rest cp) then show ?case by (auto split: list.splits if_splits)
next
  case (3 fl pv rest cp) then show ?case by (auto split: list.splits if_splits)
next
  case (4 fl ng items pv rest cp) then show ?case by (auto split: list.splits if_splits)
next
  case (5 fl pv rest cp) then show ?case by (auto split: option.splits if_splits)
next
  case (6 fl pv rest cp) then show ?case by (auto split: list.splits if_splits)
next
  case (7 fl ng pv rest cp) then show ?case by (auto split: list.splits if_splits)
qed

text \<open>A match changes the captures of the groups of the pattern only.\<close>

lemma map_of_clear_caps: "n \<notin> set ns \<Longrightarrow> map_of (clear_caps ns cp) n = map_of cp n"
  by (induction cp) (auto simp: clear_caps_def)

lemma rmatch_caps_other:
  "st' \<in> set (rmatch fl r st) \<Longrightarrow> n \<notin> set (groups_of r) \<Longrightarrow>
     map_of (snd (snd st')) n = map_of (snd (snd st)) n"
proof (induction fl r st arbitrary: st' rule: rmatch.induct)
  case (8 fl k r pv rest cp)
  then show ?case by (auto simp: map_of_clear_caps)
next
  case (9 fl a b st)
  from "9.prems" obtain x where x: "x \<in> set (rmatch fl a st)" and s: "st' \<in> set (rmatch fl b x)"
    by auto
  from "9.IH"(1) [OF x] "9.IH"(2) [OF x s] "9.prems"(2) show ?case by simp
next
  case (10 fl a b st)
  from "10.prems" "10.IH"(1) [of st'] "10.IH"(2) [of st'] show ?case by auto
next
  case (11 fl mn mx g r pv rest cp)
  note prem = "11.prems"(1) [unfolded rmatch_RRep [of fl mn mx g r pv rest cp]]
  have nr: "n \<notin> set (groups_of r)" using "11.prems"(2) by simp
  have nr': "n \<notin> set (groups_of (RRep k1 k2 g r))" for k1 k2 using nr by simp
  show ?case
  proof (cases "mx = Some 0")
    case True
    with prem show ?thesis by simp
  next
    case nz: False
    show ?thesis
    proof (cases "st' = (pv, rest, cp)")
      case True
      then show ?thesis by simp
    next
      case ne: False
      from prem nz ne obtain xa xb xc where
        x: "(xa, xb, xc) \<in> set (rmatch fl r (pv, rest, clear_caps (groups_of r) cp))"
        and s: "st' \<in> set (rmatch fl (RRep (mn - 1) (map_option (\<lambda>k. k - 1) mx) g r) (xa, xb, xc))"
        and l: "mn = 0 \<longrightarrow> length xb < length rest"
        by (cases "mn = 0"; cases g) (auto split: prod.splits if_splits)
      have a: "map_of xc n = map_of cp n"
      proof (cases "mn = 0")
        case False
        from "11.IH"(1) [OF nz False x nr] show ?thesis by (simp add: map_of_clear_caps nr)
      next
        case True
        then have nn: "\<not> mn \<noteq> 0" by simp
        show ?thesis
        proof (cases g)
          case True
          from "11.IH"(3) [OF nz nn True x nr] show ?thesis by (simp add: map_of_clear_caps nr)
        next
          case False
          from "11.IH"(5) [OF nz nn False x nr] show ?thesis by (simp add: map_of_clear_caps nr)
        qed
      qed
      have b: "map_of (snd (snd st')) n = map_of xc n"
      proof (cases "mn = 0")
        case False
        from "11.IH"(2) [OF nz False x refl refl s nr'] show ?thesis by simp
      next
        case True
        then have nn: "\<not> mn \<noteq> 0" by simp
        from l True have l': "length xb < length rest" by simp
        from s True have s': "st' \<in> set (rmatch fl (RRep 0 (map_option (\<lambda>k. k - 1) mx) g r) (xa, xb, xc))"
          by simp
        show ?thesis
        proof (cases g)
          case True
          from "11.IH"(4) [OF nz nn True x refl refl l' s' nr'] show ?thesis by simp
        next
          case False
          from "11.IH"(6) [OF nz nn False x refl refl l' s' nr'] show ?thesis by simp
        qed
      qed
      from a b show ?thesis by simp
    qed
  qed
qed (auto split: list.splits if_splits option.splits)


subsection \<open>Parsing a pattern\<close>

datatype error = SyntaxError | Unsupported | TypeError

abbreviation BS :: char where "BS \<equiv> CHR 0x5C"
abbreviation SQ :: char where "SQ \<equiv> CHR 0x27"

datatype token =
    TAtom regex
  | TAssert regex
  | TOpen bool
  | TClose
  | TBar
  | TQuant nat "nat option" bool

definition decimal :: "string \<Rightarrow> nat" where
  "decimal ds = foldl (\<lambda>n c. 10 * n + ((of_char c :: nat) - 48)) 0 ds"

text \<open>
  The bounds of a quantifier. V8, the engine of Node.js, reads them into 31 bits: a number
  above 2147483647 is taken for 2147483647, and 2147483647 as an upper bound stands for
  no bound at all.
\<close>

definition lower_bound :: "nat \<Rightarrow> nat" where
  "lower_bound n = min n 2147483647"

definition upper_bound :: "nat \<Rightarrow> nat option" where
  "upper_bound n = (if 2147483647 \<le> n then None else Some n)"

text \<open>The text after an opening brace, when it is a quantifier: \<^verbatim>\<open>n}\<close>, \<^verbatim>\<open>n,}\<close> or
  \<^verbatim>\<open>n,m}\<close>. The result is the bounds and the text after the closing brace.\<close>

definition parse_braces :: "string \<Rightarrow> (nat \<times> nat option \<times> string) option" where
  "parse_braces cs =
     (let ds = takeWhile isDigit cs; r = dropWhile isDigit cs in
      if ds = [] then None
      else (case r of
              [] \<Rightarrow> None
            | c # r1 \<Rightarrow>
                if c = CHR ''}'' then Some (lower_bound (decimal ds), upper_bound (decimal ds), r1)
                else if c = CHR '','' then
                  (if prefix ''}'' r1 then Some (lower_bound (decimal ds), None, tl r1)
                   else (let es = takeWhile isDigit r1; r2 = dropWhile isDigit r1 in
                         if es \<noteq> [] \<and> prefix ''}'' r2
                         then Some (lower_bound (decimal ds), upper_bound (decimal es), tl r2)
                         else None))
                else None))"

text \<open>The lazy mark \<^verbatim>\<open>?\<close> after a quantifier.\<close>

definition quantifier :: "nat \<Rightarrow> nat option \<Rightarrow> string \<Rightarrow> error + (token \<times> string)" where
  "quantifier mn mx cs =
     (if prefix ''?'' cs then Inr (TQuant mn mx False, tl cs) else Inr (TQuant mn mx True, cs))"

text \<open>The character after a backslash, where it stands for a set of characters.\<close>

definition class_escape :: "char \<Rightarrow> citem option" where
  "class_escape d =
     (if d = CHR ''d'' then Some (CClass Digit)
      else if d = CHR ''D'' then Some (CNotClass Digit)
      else if d = CHR ''w'' then Some (CClass Word)
      else if d = CHR ''W'' then Some (CNotClass Word)
      else if d = CHR ''s'' then Some (CClass Space)
      else if d = CHR ''S'' then Some (CNotClass Space)
      else None)"

text \<open>The character after a backslash, where it stands for one character: the control
  escapes, \<^verbatim>\<open>\0\<close>, and every other character for itself. The escapes outside the
  model are \<open>Unsupported\<close>.\<close>

definition char_escape :: "char \<Rightarrow> string \<Rightarrow> error + char" where
  "char_escape d r =
     (if d = CHR ''t'' then Inr (CHR 0x09)
      else if d = CHR ''n'' then Inr (CHR 0x0A)
      else if d = CHR ''v'' then Inr (CHR 0x0B)
      else if d = CHR ''f'' then Inr (CHR 0x0C)
      else if d = CHR ''r'' then Inr (CHR 0x0D)
      else if d = CHR ''0'' then
        (case r of [] \<Rightarrow> Inr (CHR 0x00)
         | e # r' \<Rightarrow> if isDigit e then Inl Unsupported else Inr (CHR 0x00))
      else if isDigit d \<or> d \<in> {CHR ''c'', CHR ''x'', CHR ''u'', CHR ''k''} then Inl Unsupported
      else Inr d)"

definition lex_escape :: "string \<Rightarrow> error + (token \<times> string)" where
  "lex_escape cs =
     (case cs of
        [] \<Rightarrow> Inl SyntaxError
      | d # r \<Rightarrow>
          (case class_escape d of
             Some k \<Rightarrow> Inr (TAtom (RSet False [k]), r)
           | None \<Rightarrow>
               if d = CHR ''b'' then Inr (TAssert (RWordB False), r)
               else if d = CHR ''B'' then Inr (TAssert (RWordB True), r)
               else (case char_escape d r of
                       Inl e \<Rightarrow> Inl e
                     | Inr c \<Rightarrow> Inr (TAtom (RChar c), r))))"

text \<open>One member of a character class: a character, or an escape (\<^verbatim>\<open>\b\<close> is the
  backspace there).\<close>

definition class_atom :: "string \<Rightarrow> error + (citem \<times> string)" where
  "class_atom cs =
     (case cs of
        [] \<Rightarrow> Inl SyntaxError
      | c # r \<Rightarrow>
          if c = BS then
            (case r of
               [] \<Rightarrow> Inl SyntaxError
             | d # r' \<Rightarrow>
                 (case class_escape d of
                    Some k \<Rightarrow> Inr (k, r')
                  | None \<Rightarrow>
                      if d = CHR ''b'' then Inr (CChar (CHR 0x08), r')
                      else (case char_escape d r' of
                              Inl e \<Rightarrow> Inl e
                            | Inr x \<Rightarrow> Inr (CChar x, r'))))
          else Inr (CChar c, r))"

lemma class_atom_shorter: "class_atom cs = Inr (a, r) \<Longrightarrow> length r < length cs"
  by (auto simp: class_atom_def split: list.splits if_splits option.splits sum.splits)

lemma class_atom_shorter2:
  "class_atom cs = Inr (a, r1) \<Longrightarrow> class_atom (tl r1) = Inr (b, r2) \<Longrightarrow> length r2 < length cs"
  using class_atom_shorter [of cs a r1] class_atom_shorter [of "tl r1" b r2] by simp

text \<open>The members of a class up to the closing bracket. A dash between two characters
  makes a range, which must be in order; a dash next to a class escape, or first or last
  in the class, is a literal dash.\<close>

definition range_items :: "citem \<Rightarrow> citem \<Rightarrow> error + citem list" where
  "range_items a b =
     (case (a, b) of
        (CChar x, CChar y) \<Rightarrow>
          if (of_char x :: nat) \<le> of_char y then Inr [CRange x y] else Inl SyntaxError
      | _ \<Rightarrow> Inr [a, CChar CHR ''-'', b])"

function class_items :: "string \<Rightarrow> citem list \<Rightarrow> error + (citem list \<times> string)" where
  "class_items cs acc =
     (case cs of
        [] \<Rightarrow> Inl SyntaxError
      | c # r \<Rightarrow>
          if c = CHR '']'' then Inr (acc, r)
          else (case class_atom cs of
                  Inl e \<Rightarrow> Inl e
                | Inr (a, r1) \<Rightarrow>
                    if prefix ''-'' r1 \<and> tl r1 \<noteq> [] \<and> \<not> prefix '']'' (tl r1) then
                      (case class_atom (tl r1) of
                         Inl e \<Rightarrow> Inl e
                       | Inr (b, r2) \<Rightarrow>
                           (case range_items a b of
                              Inl e \<Rightarrow> Inl e
                            | Inr its \<Rightarrow> class_items r2 (acc @ its)))
                    else class_items r1 (acc @ [a])))"
  by pat_completeness auto
termination
  by (relation "measure (\<lambda>(cs, acc). length cs)")
     (auto dest: class_atom_shorter class_atom_shorter2)

declare class_items.simps [simp del]

lemma class_items_shorter: "class_items cs acc = Inr (items, r) \<Longrightarrow> length r < length cs"
proof (induction cs acc rule: class_items.induct)
  case (1 cs acc)
  note prem = "1.prems" [unfolded class_items.simps [of cs acc]]
  show ?case
  proof (cases cs)
    case Nil
    with prem show ?thesis by simp
  next
    case (Cons c r0)
    show ?thesis
    proof (cases "c = CHR '']''")
      case True
      with prem Cons show ?thesis by simp
    next
      case False
      from prem Cons False obtain a r1 where a: "class_atom cs = Inr (a, r1)"
        by (cases "class_atom cs") (auto split: prod.splits)
      then have l1: "length r1 < length cs" by (rule class_atom_shorter)
      show ?thesis
      proof (cases "prefix ''-'' r1 \<and> tl r1 \<noteq> [] \<and> \<not> prefix '']'' (tl r1)")
        case rng: True
        from prem Cons False a rng obtain b r2 where b: "class_atom (tl r1) = Inr (b, r2)"
          by (cases "class_atom (tl r1)") (auto split: prod.splits)
        then have l2: "length r2 < length (tl r1)" by (rule class_atom_shorter)
        from prem Cons False a rng b obtain its where its: "range_items a b = Inr its"
          by (cases "range_items a b") auto
        with prem Cons False a rng b have "class_items r2 (acc @ its) = Inr (items, r)"
          by simp
        then have "length r < length r2"
          by (rule "1.IH"(1) [OF Cons False a refl rng b refl its])
        with l1 l2 show ?thesis by simp
      next
        case nrng: False
        with prem Cons False a have "class_items r1 (acc @ [a]) = Inr (items, r)"
          by auto
        then have "length r < length r1"
          by (rule "1.IH"(2) [OF Cons False a refl nrng])
        with l1 show ?thesis by simp
      qed
    qed
  qed
qed

text \<open>The first token of a non-empty pattern text, and the text after it.\<close>

definition next_token :: "string \<Rightarrow> error + (token \<times> string)" where
  "next_token s =
     (case s of
        [] \<Rightarrow> Inl SyntaxError
      | c # cs \<Rightarrow>
          if c = BS then lex_escape cs
          else if c = CHR ''['' then
            (case class_items (if prefix ''^'' cs then tl cs else cs) [] of
               Inl e \<Rightarrow> Inl e
             | Inr (items, r) \<Rightarrow> Inr (TAtom (RSet (prefix ''^'' cs) items), r))
          else if c = CHR ''('' then
            (if prefix ''?:'' cs then Inr (TOpen False, drop 2 cs)
             else if prefix ''?'' cs then Inl Unsupported
             else Inr (TOpen True, cs))
          else if c = CHR '')'' then Inr (TClose, cs)
          else if c = CHR ''|'' then Inr (TBar, cs)
          else if c = CHR ''*'' then quantifier 0 None cs
          else if c = CHR ''+'' then quantifier 1 None cs
          else if c = CHR ''?'' then quantifier 0 (Some 1) cs
          else if c = CHR ''{'' then
            (case parse_braces cs of
               None \<Rightarrow> Inr (TAtom (RChar c), cs)
             | Some (mn, mx, r) \<Rightarrow>
                 if (case mx of None \<Rightarrow> False | Some m \<Rightarrow> m < mn) then Inl SyntaxError
                 else quantifier mn mx r)
          else if c = CHR ''.'' then Inr (TAtom RDot, cs)
          else if c = CHR ''^'' then Inr (TAssert RBol, cs)
          else if c = CHR ''$'' then Inr (TAssert REol, cs)
          else Inr (TAtom (RChar c), cs))"

lemma parse_braces_shorter: "parse_braces cs = Some (mn, mx, r) \<Longrightarrow> length r \<le> length cs"
proof -
  have d: "length (dropWhile isDigit xs) \<le> length xs" for xs
    by (rule length_dropWhile_le)
  assume "parse_braces cs = Some (mn, mx, r)"
  then show ?thesis
    using d [of cs] d [of "tl (dropWhile isDigit cs)"]
    by (auto simp: parse_braces_def Let_def split: list.splits if_splits)
qed

lemma quantifier_shorter: "quantifier mn mx cs = Inr (t, r) \<Longrightarrow> length r \<le> length cs"
  by (auto simp: quantifier_def split: if_splits)

lemma lex_escape_shorter: "lex_escape cs = Inr (t, r) \<Longrightarrow> length r \<le> length cs"
  by (auto simp: lex_escape_def split: list.splits if_splits option.splits sum.splits)

lemma next_token_shorter: "next_token s = Inr (t, r) \<Longrightarrow> length r < length s"
  by (auto simp: next_token_def
           split: list.splits if_splits option.splits sum.splits prod.splits
           dest!: class_items_shorter parse_braces_shorter quantifier_shorter
                  lex_escape_shorter)

text \<open>All tokens of a pattern text.\<close>

function lex :: "string \<Rightarrow> error + token list" where
  "lex s =
     (if s = [] then Inr []
      else (case next_token s of
              Inl e \<Rightarrow> Inl e
            | Inr (t, r) \<Rightarrow>
                (case lex r of
                   Inl e \<Rightarrow> Inl e
                 | Inr ts \<Rightarrow> Inr (t # ts))))"
  by pat_completeness auto
termination
  by (relation "measure length") (auto dest: next_token_shorter)

declare lex.simps [simp del]

text \<open>A sequence and a disjunction from their parts.\<close>

fun mk_seq :: "regex list \<Rightarrow> regex" where
  "mk_seq [] = REmpty"
| "mk_seq [r] = r"
| "mk_seq (r # rs) = RSeq r (mk_seq rs)"

fun mk_alt :: "regex list \<Rightarrow> regex" where
  "mk_alt [] = REmpty"
| "mk_alt [r] = r"
| "mk_alt (r # rs) = RAlt r (mk_alt rs)"

text \<open>
  The parser reads the tokens with a stack of the groups that are open. For the group
  being read it holds the alternatives that are complete (\<open>alts\<close>), the terms of the
  alternative being read (\<open>terms\<close>), whether the last term may take a quantifier (\<open>q\<close>:
  an atom or a group may, an assertion or a quantified term may not) and the number of
  capturing groups opened so far (\<open>n\<close>): groups are numbered by their opening
  parenthesis. A stack entry keeps the number of the group (none when it does not
  capture) and the alternatives and terms of the enclosing group.
\<close>

type_synonym pframe = "nat option \<times> regex list \<times> regex list"

definition close_group :: "regex list \<Rightarrow> regex list \<Rightarrow> regex" where
  "close_group alts terms = mk_alt (alts @ [mk_seq terms])"

fun parse_tokens ::
  "token list \<Rightarrow> pframe list \<Rightarrow> regex list \<Rightarrow> regex list \<Rightarrow> bool \<Rightarrow> nat \<Rightarrow> error + regex" where
  "parse_tokens [] stack alts terms q n =
     (if stack = [] then Inr (close_group alts terms) else Inl SyntaxError)"
| "parse_tokens (TAtom r # ts) stack alts terms q n =
     parse_tokens ts stack alts (terms @ [r]) True n"
| "parse_tokens (TAssert r # ts) stack alts terms q n =
     parse_tokens ts stack alts (terms @ [r]) False n"
| "parse_tokens (TBar # ts) stack alts terms q n =
     parse_tokens ts stack (alts @ [mk_seq terms]) [] False n"
| "parse_tokens (TOpen cap # ts) stack alts terms q n =
     (if cap then parse_tokens ts ((Some (Suc n), alts, terms) # stack) [] [] False (Suc n)
      else parse_tokens ts ((None, alts, terms) # stack) [] [] False n)"
| "parse_tokens (TClose # ts) [] alts terms q n = Inl SyntaxError"
| "parse_tokens (TClose # ts) ((k, palts, pterms) # stack) alts terms q n =
     parse_tokens ts stack palts
       (pterms @ [case k of None \<Rightarrow> close_group alts terms
                  | Some i \<Rightarrow> RGroup i (close_group alts terms)])
       True n"
| "parse_tokens (TQuant mn mx g # ts) stack alts terms q n =
     (if q \<and> terms \<noteq> []
      then parse_tokens ts stack alts (butlast terms @ [RRep mn mx g (last terms)]) False n
      else Inl SyntaxError)"

text \<open>The flags of \<^verbatim>\<open>new RegExp(pattern, flags)\<close>: each of \<^verbatim>\<open>dgimsy\<close> at most once.\<close>

definition no_flags :: rflags where
  "no_flags = \<lparr>hasIndices = False, global = False, ignoreCase = False, multiline = False,
               dotAll = False, sticky = False\<rparr>"

fun parse_flags :: "string \<Rightarrow> rflags \<Rightarrow> error + rflags" where
  "parse_flags [] fl = Inr fl"
| "parse_flags (c # cs) fl =
     (if c = CHR ''d'' \<and> \<not> hasIndices fl then parse_flags cs (fl\<lparr>hasIndices := True\<rparr>)
      else if c = CHR ''g'' \<and> \<not> global fl then parse_flags cs (fl\<lparr>global := True\<rparr>)
      else if c = CHR ''i'' \<and> \<not> ignoreCase fl then parse_flags cs (fl\<lparr>ignoreCase := True\<rparr>)
      else if c = CHR ''m'' \<and> \<not> multiline fl then parse_flags cs (fl\<lparr>multiline := True\<rparr>)
      else if c = CHR ''s'' \<and> \<not> dotAll fl then parse_flags cs (fl\<lparr>dotAll := True\<rparr>)
      else if c = CHR ''y'' \<and> \<not> sticky fl then parse_flags cs (fl\<lparr>sticky := True\<rparr>)
      else if c = CHR ''u'' \<or> c = CHR ''v'' then Inl Unsupported
      else Inl SyntaxError)"

text \<open>A \<^verbatim>\<open>RegExp\<close> object: its source, its flags and its compiled pattern. The
  \<^verbatim>\<open>lastIndex\<close> property, the one part of the object that changes, is passed to and
  returned from \<open>RegExp_exec\<close> and \<open>RegExp_test\<close> below.\<close>

record regexp =
  source :: string
  flags :: rflags
  pattern :: regex

text \<open>\<^verbatim>\<open>new RegExp(pattern, flags)\<close>; \<open>Inl SyntaxError\<close> is the exception it throws.\<close>

definition RegExp_new :: "string \<Rightarrow> string \<Rightarrow> error + regexp" where
  "RegExp_new src fs =
     (case parse_flags fs no_flags of
        Inl e \<Rightarrow> Inl e
      | Inr fl \<Rightarrow>
          (case lex src of
             Inl e \<Rightarrow> Inl e
           | Inr ts \<Rightarrow>
               (case parse_tokens ts [] [] [] False 0 of
                  Inl e \<Rightarrow> Inl e
                | Inr r \<Rightarrow> Inr \<lparr>source = src, flags = fl, pattern = r\<rparr>)))"


subsection \<open>exec, test, match, replace and split\<close>

text \<open>The leftmost position, from the current one on, where the pattern matches: the
  number of characters skipped, the input from that position, and the end state of the
  match that backtracking finds first.\<close>

fun search :: "rflags \<Rightarrow> regex \<Rightarrow> char option \<Rightarrow> string \<Rightarrow> (nat \<times> string \<times> mstate) option" where
  "search fl r pv rest =
     (case rmatch fl r (pv, rest, []) of
        st # sts \<Rightarrow> Some (0, rest, st)
      | [] \<Rightarrow>
          (case rest of
             [] \<Rightarrow> None
           | c # cs \<Rightarrow>
               (case search fl r (Some c) cs of
                  None \<Rightarrow> None
                | Some (i, inp, st) \<Rightarrow> Some (Suc i, inp, st))))"

declare search.simps [simp del]

text \<open>A match: where it starts, the matched text, and the captures.\<close>

record match =
  index :: nat
  matched :: string
  groups :: captures

definition mk_match :: "nat \<Rightarrow> string \<Rightarrow> mstate \<Rightarrow> match" where
  "mk_match i inp st =
     (case st of (pv', rest', cp) \<Rightarrow>
        \<lparr>index = i, matched = take (length inp - length rest') inp, groups = cp\<rparr>)"

text \<open>\<^verbatim>\<open>m[n]\<close> for a group number \<open>n\<close>; \<open>None\<close> is \<^verbatim>\<open>undefined\<close>.\<close>

definition capture :: "match \<Rightarrow> nat \<Rightarrow> string option" where
  "capture m n = map_of (groups m) n"

definition prev_char :: "string \<Rightarrow> nat \<Rightarrow> char option" where
  "prev_char s i = (if i = 0 \<or> length s < i then None else Some (s ! (i - 1)))"

text \<open>
  \<^verbatim>\<open>re.exec(s)\<close> (RegExpBuiltinExec), with the \<^verbatim>\<open>lastIndex\<close> of the object before the
  call as an argument and after the call as the second result. Without \<^verbatim>\<open>g\<close> and
  \<^verbatim>\<open>y\<close> the search starts at 0 and \<^verbatim>\<open>lastIndex\<close> is left alone; with one of them it
  starts at \<^verbatim>\<open>lastIndex\<close>, which becomes the end of the match, or 0 when there is none.
  With \<^verbatim>\<open>y\<close> only the start position is tried.
\<close>

definition RegExp_exec :: "regexp \<Rightarrow> string \<Rightarrow> nat \<Rightarrow> match option \<times> nat" where
  "RegExp_exec re s lastIndex =
     (let fl = flags re;
          gy = (global fl \<or> sticky fl);
          start = (if gy then lastIndex else 0)
      in if length s < start then (None, if gy then 0 else lastIndex)
         else (case (if sticky fl
                     then (case rmatch fl (pattern re) (prev_char s start, drop start s, []) of
                             [] \<Rightarrow> None
                           | st # sts \<Rightarrow> Some (0, drop start s, st))
                     else search fl (pattern re) (prev_char s start) (drop start s)) of
                 None \<Rightarrow> (None, if gy then 0 else lastIndex)
               | Some (i, inp, st) \<Rightarrow>
                   (Some (mk_match (start + i) inp st),
                    if gy then start + i + length (matched (mk_match (start + i) inp st))
                    else lastIndex)))"

text \<open>\<^verbatim>\<open>re.test(s)\<close>\<close>

definition RegExp_test :: "regexp \<Rightarrow> string \<Rightarrow> nat \<Rightarrow> bool \<times> nat" where
  "RegExp_test re s lastIndex =
     (case RegExp_exec re s lastIndex of (m, li) \<Rightarrow> (m \<noteq> None, li))"

text \<open>\<^verbatim>\<open>s.match(re)\<close> for a regular expression without the \<^verbatim>\<open>g\<close> flag, freshly made
  (so that \<^verbatim>\<open>lastIndex\<close> is 0): the result of \<^verbatim>\<open>exec\<close>.\<close>

definition String_match :: "string \<Rightarrow> regexp \<Rightarrow> match option" where
  "String_match s re = fst (RegExp_exec re s 0)"

subsection \<open>Patterns outside the modelled grammar\<close>

text \<open>
  A step file may hold any regex literal, also one outside the grammar above. What the
  engine does with such a pattern is a parameter of the model: \<open>compiles\<close> says whether
  \<^verbatim>\<open>new RegExp(pattern, flags)\<close> returns (rather than throws), and \<open>matcher\<close> is the
  matcher of the compiled pattern, which for an input and a start index gives the end
  index of the match from there, if there is one. Everything proved below holds for
  every engine.
\<close>

record engine =
  compiles :: "string \<Rightarrow> string \<Rightarrow> bool"
  matcher :: "string \<Rightarrow> string \<Rightarrow> string \<Rightarrow> nat \<Rightarrow> nat option"

text \<open>A \<^verbatim>\<open>RegExp\<close> object of the program: one of the modelled grammar, or one that the
  engine has compiled from a pattern and flags outside it.\<close>

datatype regexp_object = Compiled regexp | Foreign string string

text \<open>\<^verbatim>\<open>new RegExp(pattern, flags)\<close> for any pattern and flags.\<close>

definition RegExp_construct :: "engine \<Rightarrow> string \<Rightarrow> string \<Rightarrow> error + regexp_object" where
  "RegExp_construct eng src fs =
     (case RegExp_new src fs of
        Inr re \<Rightarrow> Inr (Compiled re)
      | Inl e \<Rightarrow>
          if e = Unsupported
          then (if compiles eng src fs then Inr (Foreign src fs) else Inl SyntaxError)
          else Inl e)"

text \<open>
  \<^verbatim>\<open>re.test(s)\<close> for a \<^verbatim>\<open>RegExp\<close> object. For a foreign pattern the steps of
  RegExpBuiltinExec around the matcher are the same: the search starts at
  \<^verbatim>\<open>lastIndex\<close> with \<^verbatim>\<open>g\<close> or \<^verbatim>\<open>y\<close> and at 0 without, tries the start positions in
  turn (with \<^verbatim>\<open>y\<close> the first only), and with \<^verbatim>\<open>g\<close> or \<^verbatim>\<open>y\<close> sets \<^verbatim>\<open>lastIndex\<close> to
  the end of the match, or to 0 when there is none.
\<close>

definition foreign_search :: "engine \<Rightarrow> string \<Rightarrow> string \<Rightarrow> string \<Rightarrow> nat \<Rightarrow> nat option" where
  "foreign_search eng src fs s start =
     (case filter (\<lambda>i. matcher eng src fs s i \<noteq> None) [start ..< Suc (length s)] of
        [] \<Rightarrow> None
      | i # is \<Rightarrow> matcher eng src fs s i)"

definition Foreign_test :: "engine \<Rightarrow> string \<Rightarrow> string \<Rightarrow> string \<Rightarrow> nat \<Rightarrow> bool \<times> nat" where
  "Foreign_test eng src fs s lastIndex =
     (let gy = (CHR ''g'' \<in> set fs \<or> CHR ''y'' \<in> set fs);
          start = (if gy then lastIndex else 0)
      in if length s < start then (False, if gy then 0 else lastIndex)
         else (case (if CHR ''y'' \<in> set fs then matcher eng src fs s start
                     else foreign_search eng src fs s start) of
                 None \<Rightarrow> (False, if gy then 0 else lastIndex)
               | Some e \<Rightarrow> (True, if gy then e else lastIndex)))"

definition test :: "engine \<Rightarrow> regexp_object \<Rightarrow> string \<Rightarrow> nat \<Rightarrow> bool \<times> nat" where
  "test eng re s lastIndex =
     (case re of
        Compiled c \<Rightarrow> RegExp_test c s lastIndex
      | Foreign src fs \<Rightarrow> Foreign_test eng src fs s lastIndex)"


lemma search_Some:
  "search fl r pv rest = Some (i, inp, st) \<Longrightarrow>
     inp = drop i rest \<and> i \<le> length rest
     \<and> st \<in> set (rmatch fl r (if i = 0 then pv else Some (rest ! (i - 1)), inp, []))"
proof (induction rest arbitrary: pv i)
  case Nil
  then show ?case
    by (subst (asm) search.simps) (auto split: list.splits)
next
  case (Cons c cs)
  show ?case
  proof (cases "rmatch fl r (pv, c # cs, [])")
    case Nil
    with Cons.prems obtain j where j: "search fl r (Some c) cs = Some (j, inp, st)" "i = Suc j"
      by (subst (asm) search.simps) (auto split: option.splits)
    from Cons.IH [OF j(1)] j(2) show ?thesis
      by (cases j) auto
  next
    case (Cons st0 sts)
    with Cons.prems show ?thesis
      by (subst (asm) search.simps) auto
  qed
qed

lemma search_length:
  "search fl r pv rest = Some (i, inp, (pv', rest', cp)) \<Longrightarrow>
     length inp \<le> length rest \<and> length rest' \<le> length inp"
  using search_Some [of fl r pv rest i inp "(pv', rest', cp)"]
        rmatch_min_len [of "(pv', rest', cp)" fl r]
  by fastforce

text \<open>
  The replacement text of \<^verbatim>\<open>replace\<close> for one match: \<^verbatim>\<open>$$\<close> is a dollar sign and
  \<^verbatim>\<open>$&\<close> the matched text. (The other replacement patterns refer to captures and to the
  text around the match; the replacement texts in \<^verbatim>\<open>find-unused.mjs\<close> have \<^verbatim>\<open>$&\<close>
  only.)
\<close>

fun expand_template :: "string \<Rightarrow> string \<Rightarrow> string" where
  "expand_template [] m = []"
| "expand_template [c] m = [c]"
| "expand_template (c # d # t) m =
     (if c = CHR ''$'' \<and> d = CHR ''$'' then CHR ''$'' # expand_template t m
      else if c = CHR ''$'' \<and> d = CHR ''&'' then m @ expand_template t m
      else c # expand_template (d # t) m)"

text \<open>
  \<^verbatim>\<open>s.replace(re, template)\<close> for a regular expression with the \<^verbatim>\<open>g\<close> flag and without
  \<^verbatim>\<open>y\<close>: every match, from left to right, is replaced; after an empty match the search
  goes on one character later.
\<close>

function replace_loop :: "rflags \<Rightarrow> regex \<Rightarrow> string \<Rightarrow> char option \<Rightarrow> string \<Rightarrow> string" where
  "replace_loop fl r tmpl pv rest =
     (case search fl r pv rest of
        None \<Rightarrow> rest
      | Some (i, inp, (pv', rest', cp)) \<Rightarrow>
          take i rest @ expand_template tmpl (take (length inp - length rest') inp)
          @ (if length rest' < length inp then replace_loop fl r tmpl pv' rest'
             else (case inp of
                     [] \<Rightarrow> []
                   | c # cs \<Rightarrow> c # replace_loop fl r tmpl (Some c) cs)))"
  by pat_completeness auto
termination
proof (relation "measure (\<lambda>(fl, r, tmpl, pv, rest). length rest)", goal_cases)
  case 1
  show ?case by simp
next
  case (2 fl r tmpl pv rest x2 i y inp z pv' w rest' cp)
  then have "search fl r pv rest = Some (i, inp, (pv', rest', cp))" by simp
  from search_length [OF this] 2 show ?case by simp
next
  case (3 fl r tmpl pv rest x2 i y inp z pv' w rest' cp c cs)
  then have "search fl r pv rest = Some (i, inp, (pv', rest', cp))" by simp
  from search_length [OF this] 3 show ?case by simp
qed

declare replace_loop.simps [simp del]

definition String_replace :: "regexp \<Rightarrow> string \<Rightarrow> string \<Rightarrow> string" where
  "String_replace re tmpl s = replace_loop (flags re) (pattern re) tmpl None s"

text \<open>
  \<^verbatim>\<open>s.split(re)\<close> for a regular expression without groups, and no limit: the pattern is
  tried at each position of the input (as with the \<^verbatim>\<open>y\<close> flag); a match that ends
  where the current piece begins is skipped; otherwise the piece before the match is
  added and the next piece begins at the end of the match. \<open>cur\<close> is the current piece
  so far, reversed.
\<close>

function split_loop :: "rflags \<Rightarrow> regex \<Rightarrow> string \<Rightarrow> char option \<Rightarrow> string \<Rightarrow> string list" where
  "split_loop fl r cur pv rest =
     (case rest of
        [] \<Rightarrow> [rev cur]
      | c # cs \<Rightarrow>
          (case rmatch fl r (pv, rest, []) of
             [] \<Rightarrow> split_loop fl r (c # cur) (Some c) cs
           | (pv', rest', cp) # sts \<Rightarrow>
               if length rest' = length rest \<and> cur = []
               then split_loop fl r (c # cur) (Some c) cs
               else rev cur # split_loop fl r [] pv' rest'))"
  by pat_completeness auto
termination
proof (relation "measure (\<lambda>(fl, r, cur, pv, rest). 2 * length rest + (if cur = [] then 0 else 1))",
       goal_cases)
  case 1
  show ?case by simp
next
  case 2
  then show ?case by simp
next
  case 3
  then show ?case by simp
next
  case (4 fl r cur pv rest c cs st sts pv' x rest' cp)
  then have "(pv', rest', cp) \<in> set (rmatch fl r (pv, rest, []))" by simp
  from rmatch_min_len [OF this] 4 show ?case
    by (auto split: if_splits)
qed

declare split_loop.simps [simp del]

definition String_split_re :: "string \<Rightarrow> regexp \<Rightarrow> string list" where
  "String_split_re s re =
     (if s = [] then (case rmatch (flags re) (pattern re) (None, [], []) of
                        [] \<Rightarrow> [[]]
                      | st # sts \<Rightarrow> [])
      else split_loop (flags re) (pattern re) [] None s)"


lemma split_loop_nonempty: "split_loop fl r cur pv rest \<noteq> []"
proof (induction fl r cur pv rest rule: split_loop.induct)
  case (1 fl r cur pv rest)
  show ?case
    apply (subst split_loop.simps)
    using 1 apply (auto split: list.splits prod.splits)
    done
qed

lemma String_split_re_nonempty: "s \<noteq> [] \<Longrightarrow> String_split_re s re \<noteq> []"
  by (simp add: String_split_re_def split_loop_nonempty)


section \<open>find-unused.mjs: utilities\<close>

text \<open>
  A regular expression literal of the source is given as the object it evaluates to;
  the lemmas \<open>\<dots>_literal\<close> below show that \<open>RegExp_new\<close> builds this object from the
  text between the slashes and the flags.
\<close>

definition g_flags :: rflags where
  "g_flags = no_flags\<lparr>global := True\<rparr>"

definition i_flags :: rflags where
  "i_flags = no_flags\<lparr>ignoreCase := True\<rparr>"

text \<open>The table \<^verbatim>\<open>map\<close> of \<^verbatim>\<open>cucumberExprToRegex\<close>, in the order of its entries, which
  is the order of \<^verbatim>\<open>Object.entries\<close> and \<^verbatim>\<open>Object.values\<close>.\<close>

definition int_group :: string where
  "int_group = ''(-?'' @ BS # ''d+)''"

definition float_group :: string where
  "float_group = ''(-?'' @ BS # ''d+(?:[.,]'' @ BS # ''d+)?)''"

definition word_group :: string where
  "word_group = ''('' @ BS # ''S+)''"

definition string_group :: string where
  \<open>string_group = ''"([^"]*)"|\'([^\']*)\'|`([^`]*)`''\<close>

definition uuid_group :: string where
  "uuid_group = ''([0-9a-fA-F]{8}-(?:[0-9a-fA-F]{4}-){3}[0-9a-fA-F]{12})''"

definition any_group :: string where
  "any_group = ''(.+)''"

definition param_map :: "(string \<times> string) list" where
  "param_map =
     [(''{int}'', int_group),
      (''{float}'', float_group),
      (''{word}'', word_group),
      (''{string}'', string_group),
      (''{bigint}'', int_group),
      (''{byte}'', int_group),
      (''{short}'', int_group),
      (''{double}'', float_group),
      (''{biginteger}'', int_group),
      (''{uuid}'', uuid_group),
      (''{any}'', any_group)]"

text \<open>\<^verbatim>\<open>/[.*+?^${}()|[\]\\]/g\<close>\<close>

definition special :: regexp where
  "special =
     \<lparr>source = ''[.*+?^${}()|['' @ BS # '']'' @ BS # BS # '']'',
      flags = g_flags,
      pattern = RSet False
        [CChar CHR ''.'', CChar CHR ''*'', CChar CHR ''+'', CChar CHR ''?'', CChar CHR ''^'',
         CChar CHR ''$'', CChar CHR ''{'', CChar CHR ''}'', CChar CHR ''('', CChar CHR '')'',
         CChar CHR ''|'', CChar CHR ''['', CChar CHR '']'', CChar BS]\<rparr>"

text \<open>\<^verbatim>\<open>/[-\/\\^$*+?.()|[\]{}]/g\<close>\<close>

definition group_special :: regexp where
  "group_special =
     \<lparr>source = ''[-'' @ BS # ''/'' @ BS # BS # ''^$*+?.()|['' @ BS # '']{}]'',
      flags = g_flags,
      pattern = RSet False
        [CChar CHR ''-'', CChar CHR ''/'', CChar BS, CChar CHR ''^'', CChar CHR ''$'',
         CChar CHR ''*'', CChar CHR ''+'', CChar CHR ''?'', CChar CHR ''.'', CChar CHR ''('',
         CChar CHR '')'', CChar CHR ''|'', CChar CHR ''['', CChar CHR '']'', CChar CHR ''{'',
         CChar CHR ''}'']\<rparr>"

text \<open>\<^verbatim>\<open>/\s+/g\<close>\<close>

definition white_space :: regexp where
  "white_space =
     \<lparr>source = BS # ''s+'',
      flags = g_flags,
      pattern = RRep 1 None True (RSet False [CClass Space])\<rparr>"

text \<open>
  \<^verbatim>\<open>
  let s = expr.trim();
  for (const [k, v] of Object.entries(map)) { s = s.split(k).join(v); }
  s = s.replace(special, "\\$&");
  for (const v of Object.values(map)) {
    const escaped = v.replace(/[-\/\\^$*+?.()|[\]{}]/g, "\\$&");
    s = s.split(escaped).join(v);
  }
  s = s.replace(/\s+/g, "\\s+");
  return `^${s}$`;
  \<close>
\<close>

definition substitute :: "string \<Rightarrow> string" where
  "substitute s = foldl (\<lambda>s (k, v). Array_join (String_split s k) v) s param_map"

definition escape_special :: "string \<Rightarrow> string" where
  "escape_special s = String_replace special (BS # ''$&'') s"

definition escaped :: "string \<Rightarrow> string" where
  "escaped v = String_replace group_special (BS # ''$&'') v"

definition reinsert :: "string \<Rightarrow> string" where
  "reinsert s = foldl (\<lambda>s v. Array_join (String_split s (escaped v)) v) s (map snd param_map)"

definition flexible_whitespace :: "string \<Rightarrow> string" where
  "flexible_whitespace s = String_replace white_space (BS # ''s+'') s"

definition cucumberExprToRegex :: "string \<Rightarrow> string" where
  "cucumberExprToRegex expr =
     ''^'' @ flexible_whitespace (reinsert (escape_special (substitute (trim expr)))) @ ''$''"

text \<open>\<^verbatim>\<open>/^\/(.+)\/([a-z]*)$/i\<close>\<close>

definition regex_literal_re :: regexp where
  "regex_literal_re =
     \<lparr>source = ''^'' @ BS # ''/(.+)'' @ BS # ''/([a-z]*)$'',
      flags = i_flags,
      pattern =
        RSeq RBol (RSeq (RChar CHR ''/'') (RSeq (RGroup 1 (RRep 1 None True RDot))
          (RSeq (RChar CHR ''/'')
            (RSeq (RGroup 2 (RRep 0 None True (RSet False [CRange CHR ''a'' CHR ''z''])))
              REol))))\<rparr>"

text \<open>
  \<^verbatim>\<open>
  const m = lit.match(/^\/(.+)\/([a-z]*)$/i);
  if (!m) return null;
  return { source: m[1], flags: m[2] || "" };
  \<close>
  Both groups take part in every match; the \<open>None\<close> branches below stand for
  \<^verbatim>\<open>undefined\<close>, which \<^verbatim>\<open>new RegExp\<close> reads as the empty pattern.
\<close>

definition extractRegexLiteral :: "string \<Rightarrow> (string \<times> string) option" where
  "extractRegexLiteral lit =
     (case String_match lit regex_literal_re of
        None \<Rightarrow> None
      | Some m \<Rightarrow>
          Some (case capture m 1 of None \<Rightarrow> [] | Some src \<Rightarrow> src,
                case capture m 2 of None \<Rightarrow> [] | Some fs \<Rightarrow> fs))"

text \<open>
  \<^verbatim>\<open>
  try { return new RegExp(pattern, flags); } catch (e) { return null; }
  \<close>
\<close>

definition tryBuildRegExp :: "engine \<Rightarrow> string \<Rightarrow> string \<Rightarrow> regexp_object option" where
  "tryBuildRegExp eng pt fs =
     (case RegExp_construct eng pt fs of Inl e \<Rightarrow> None | Inr re \<Rightarrow> Some re)"

section \<open>find-unused.mjs: step extraction\<close>

text \<open>\<^verbatim>\<open>/(?:\b(?:Given|When|Then|And|But|defineStep)\s*\(\s*)([^,]+)\s*,/g\<close>\<close>

definition STEP_CALL_RE :: regexp where
  "STEP_CALL_RE =
     \<lparr>source = ''(?:'' @ BS # ''b(?:Given|When|Then|And|But|defineStep)'' @ BS # ''s*'' @ BS # ''(''
                @ BS # ''s*)([^,]+)'' @ BS # ''s*,'',
      flags = g_flags,
      pattern =
        RSeq
          (RSeq (RWordB False)
            (RSeq
              (RAlt (mk_seq (map RChar ''Given''))
                (RAlt (mk_seq (map RChar ''When''))
                  (RAlt (mk_seq (map RChar ''Then''))
                    (RAlt (mk_seq (map RChar ''And''))
                      (RAlt (mk_seq (map RChar ''But''))
                        (mk_seq (map RChar ''defineStep'')))))))
              (RSeq (RRep 0 None True (RSet False [CClass Space]))
                (RSeq (RChar CHR ''('')
                  (RRep 0 None True (RSet False [CClass Space]))))))
          (RSeq (RGroup 1 (RRep 1 None True (RSet True [CChar CHR '',''])))
            (RSeq (RRep 0 None True (RSet False [CClass Space]))
              (RChar CHR '','')))\<rparr>"

text \<open>\<^verbatim>\<open>/\s/\<close>\<close>

definition one_space :: regexp where
  "one_space = \<lparr>source = BS # ''s'', flags = no_flags, pattern = RSet False [CClass Space]\<rparr>"

datatype ptype = Regex | Expr | Unparsed

text \<open>An entry of \<^verbatim>\<open>patterns\<close>. The entries for literals have the fields \<^verbatim>\<open>file\<close> (here \<open>pfile\<close>),
  \<^verbatim>\<open>type\<close>, \<^verbatim>\<open>raw\<close> and \<^verbatim>\<open>regexp\<close>; an unparsed entry has \<^verbatim>\<open>skipped: true\<close> and no
  \<^verbatim>\<open>regexp\<close>.\<close>

record step_pattern =
  pfile :: string
  type :: ptype
  raw :: string
  regexp :: "regexp_object option"
  skipped :: bool

text \<open>
  The body of the \<^verbatim>\<open>while\<close> loop of \<^verbatim>\<open>extractStepPatternsFromSource\<close> for one match
  \<open>m\<close> of \<^verbatim>\<open>STEP_CALL_RE\<close>: the entries it pushes. Reading a property of \<^verbatim>\<open>undefined\<close>
  (\<^verbatim>\<open>m[1].trim()\<close>, or \<^verbatim>\<open>lit.match\<close> when the split gives no piece) is a TypeError.
\<close>

definition expr_pattern :: "engine \<Rightarrow> string \<Rightarrow> string \<Rightarrow> step_pattern list" where
  "expr_pattern eng f inner =
     (case tryBuildRegExp eng (cucumberExprToRegex inner) ''i'' of
        None \<Rightarrow> []
      | Some re \<Rightarrow> [\<lparr>pfile = f, type = Expr, raw = inner, regexp = Some re, skipped = False\<rparr>])"

definition step_patterns_of :: "engine \<Rightarrow> string \<Rightarrow> match \<Rightarrow> error + step_pattern list" where
  \<open>step_patterns_of eng f m =
     (case capture m 1 of
        None \<Rightarrow> Inl TypeError
      | Some m1 \<Rightarrow>
          (let raw = trim m1 in
           if prefix ''/'' raw then
             (case String_split_re raw one_space of
                [] \<Rightarrow> Inl TypeError
              | lit # pieces \<Rightarrow>
                  (case extractRegexLiteral lit of
                     None \<Rightarrow> Inr []
                   | Some (src, fs) \<Rightarrow>
                       (case tryBuildRegExp eng src fs of
                          None \<Rightarrow> Inr []
                        | Some re \<Rightarrow>
                            Inr [\<lparr>pfile = f, type = Regex, raw = lit, regexp = Some re,
                                  skipped = False\<rparr>])))
           else if (prefix [SQ] raw \<and> suffix [SQ] raw) \<or> (prefix ''"'' raw \<and> suffix ''"'' raw)
             then Inr (expr_pattern eng f (slice_1_m1 raw))
           else if prefix ''`'' raw \<and> suffix ''`'' raw
             then Inr (expr_pattern eng f (slice_1_m1 raw))
           else Inr [\<lparr>pfile = f, type = Unparsed, raw = raw, regexp = None, skipped = True\<rparr>]))\<close>


lemma RegExp_exec_progress:
  assumes "global (flags re) \<or> sticky (flags re)"
      and "RegExp_exec re s lastIndex = (Some m, li)"
  shows "lastIndex + min_len (pattern re) \<le> li \<and> li \<le> length s"
proof -
  let ?fl = "flags re" and ?r = "pattern re"
  from assms have le: "lastIndex \<le> length s"
    by (auto simp: RegExp_exec_def Let_def split: if_splits)
  from assms le obtain i inp st where
    f: "(if sticky ?fl
         then (case rmatch ?fl ?r (prev_char s lastIndex, drop lastIndex s, []) of
                 [] \<Rightarrow> None
               | st # sts \<Rightarrow> Some (0, drop lastIndex s, st))
         else search ?fl ?r (prev_char s lastIndex) (drop lastIndex s)) = Some (i, inp, st)"
    and li: "li = lastIndex + i + length (matched (mk_match (lastIndex + i) inp st))"
    by (auto simp: RegExp_exec_def Let_def split: if_splits option.splits)
  obtain pv' rest' cp where st: "st = (pv', rest', cp)" by (cases st) auto
  have "inp = drop i (drop lastIndex s) \<and> i \<le> length (drop lastIndex s)
        \<and> (\<exists>pv. st \<in> set (rmatch ?fl ?r (pv, inp, [])))"
  proof (cases "sticky ?fl")
    case True
    with f obtain sts where
      "rmatch ?fl ?r (prev_char s lastIndex, drop lastIndex s, []) = st # sts"
      "i = 0" "inp = drop lastIndex s"
      by (auto split: list.splits)
    then show ?thesis
      by (intro conjI exI [of _ "prev_char s lastIndex"]) simp_all
  next
    case False
    with f have "search ?fl ?r (prev_char s lastIndex) (drop lastIndex s) = Some (i, inp, st)"
      by simp
    from search_Some [OF this] show ?thesis by blast
  qed
  then obtain pv where inp: "inp = drop i (drop lastIndex s)" and i: "i \<le> length (drop lastIndex s)"
    and mem: "st \<in> set (rmatch ?fl ?r (pv, inp, []))" by blast
  from rmatch_min_len [OF mem] st have ml: "length rest' + min_len ?r \<le> length inp" by simp
  have "length (matched (mk_match (lastIndex + i) inp st)) = length inp - length rest'"
    using ml by (simp add: mk_match_def st)
  with li ml inp i le show ?thesis by auto
qed

lemma min_len_mk_seq_RChar [simp]: "min_len (mk_seq (map RChar cs)) = length cs"
  by (induction cs rule: induct_list012) auto

lemma STEP_CALL_RE_progress:
  "RegExp_exec STEP_CALL_RE src lastIndex = (Some m, li) \<Longrightarrow> lastIndex < li \<and> li \<le> length src"
  using RegExp_exec_progress [of STEP_CALL_RE src lastIndex m li]
  by (simp add: STEP_CALL_RE_def g_flags_def no_flags_def rep_count_def)

lemma STEP_CALL_RE_capture:
  assumes "RegExp_exec STEP_CALL_RE src lastIndex = (Some m, li)"
  shows "capture m 1 \<noteq> None"
proof -
  let ?fl = "flags STEP_CALL_RE" and ?r = "pattern STEP_CALL_RE"
  from assms obtain i inp st where
    f: "search ?fl ?r (prev_char src lastIndex) (drop lastIndex src) = Some (i, inp, st)"
    and m: "m = mk_match (lastIndex + i) inp st"
    by (auto simp: RegExp_exec_def Let_def STEP_CALL_RE_def g_flags_def no_flags_def
             split: if_splits option.splits)
  from search_Some [OF f] obtain pv where mem: "st \<in> set (rmatch ?fl ?r (pv, inp, []))"
    by blast
  obtain a k b where r: "?r = RSeq a (RSeq (RGroup 1 k) b)" and gb: "groups_of b = []"
    by (simp add: STEP_CALL_RE_def)
  from mem [unfolded r] obtain x y where
    y: "y \<in> set (rmatch ?fl (RGroup 1 k) x)" and s: "st \<in> set (rmatch ?fl b y)"
    by auto
  obtain xa xb xc where xe: "x = (xa, xb, xc)" by (cases x) auto
  from y xe have "map_of (snd (snd y)) 1 \<noteq> None" by auto
  with rmatch_caps_other [OF s, of 1] gb have "map_of (snd (snd st)) 1 \<noteq> None" by simp
  with m show ?thesis by (cases st) (simp add: capture_def mk_match_def)
qed

text \<open>
  \<^verbatim>\<open>
  const patterns = [];
  let m;
  while ((m = STEP_CALL_RE.exec(src)) !== null) { ... patterns.push(...) ... }
  return patterns;
  \<close>
  \<^verbatim>\<open>STEP_CALL_RE\<close> is one object for the whole module and has the \<^verbatim>\<open>g\<close> flag: its
  \<^verbatim>\<open>lastIndex\<close> is state that outlives a call. The model takes the \<^verbatim>\<open>lastIndex\<close> before
  the call and returns the one after it with the patterns.
\<close>

function extract_loop ::
  "engine \<Rightarrow> string \<Rightarrow> string \<Rightarrow> step_pattern list \<Rightarrow> nat \<Rightarrow> error + (step_pattern list \<times> nat)" where
  "extract_loop eng src f patterns lastIndex =
     (case RegExp_exec STEP_CALL_RE src lastIndex of
        (None, li) \<Rightarrow> Inr (patterns, li)
      | (Some m, li) \<Rightarrow>
          (case step_patterns_of eng f m of
             Inl e \<Rightarrow> Inl e
           | Inr ps \<Rightarrow> extract_loop eng src f (patterns @ ps) li))"
  by pat_completeness auto
termination
proof (relation "measure (\<lambda>(eng, src, f, patterns, lastIndex). length src - lastIndex)", goal_cases)
  case 1
  show ?case by simp
next
  case 2
  then show ?case
    by (auto dest: STEP_CALL_RE_progress STEP_CALL_RE_progress [OF sym])
qed

declare extract_loop.simps [simp del]

definition extractStepPatternsFromSource ::
  "engine \<Rightarrow> string \<Rightarrow> string \<Rightarrow> nat \<Rightarrow> error + (step_pattern list \<times> nat)" where
  "extractStepPatternsFromSource eng src f lastIndex = extract_loop eng src f [] lastIndex"

section \<open>find-unused.mjs: feature scanning\<close>

text \<open>\<^verbatim>\<open>/^\s*(?:Given|When|Then|And|But)\s+(.*\S)\s*$/i\<close>\<close>

definition FEATURE_STEP_RE :: regexp where
  "FEATURE_STEP_RE =
     \<lparr>source = ''^'' @ BS # ''s*(?:Given|When|Then|And|But)'' @ BS # ''s+(.*'' @ BS # ''S)''
                @ BS # ''s*$'',
      flags = i_flags,
      pattern =
        RSeq RBol
          (RSeq (RRep 0 None True (RSet False [CClass Space]))
            (RSeq
              (RAlt (mk_seq (map RChar ''Given''))
                (RAlt (mk_seq (map RChar ''When''))
                  (RAlt (mk_seq (map RChar ''Then''))
                    (RAlt (mk_seq (map RChar ''And''))
                      (mk_seq (map RChar ''But''))))))
              (RSeq (RRep 1 None True (RSet False [CClass Space]))
                (RSeq (RGroup 1 (RSeq (RRep 0 None True RDot) (RSet False [CNotClass Space])))
                  (RSeq (RRep 0 None True (RSet False [CClass Space]))
                    REol)))))\<rparr>"

text \<open>\<^verbatim>\<open>/^\s*#/\<close>\<close>

definition comment_re :: regexp where
  "comment_re =
     \<lparr>source = ''^'' @ BS # ''s*#'',
      flags = no_flags,
      pattern = RSeq RBol (RSeq (RRep 0 None True (RSet False [CClass Space])) (RChar CHR ''#''))\<rparr>"

text \<open>\<^verbatim>\<open>/\r?\n/\<close>\<close>

definition line_break :: regexp where
  "line_break =
     \<lparr>source = BS # ''r?'' @ BS # ''n'',
      flags = no_flags,
      pattern = RSeq (RRep 0 (Some 1) True (RChar (CHR 0x0D))) (RChar (CHR 0x0A))\<rparr>"

text \<open>
  \<^verbatim>\<open>
  for (const line of featureText.split(/\r?\n/)) {
    if (/^\s*#/.test(line)) continue;
    const m = line.match(FEATURE_STEP_RE);
    if (m) steps.push(m[1].trim());
  }
  \<close>
\<close>

fun feature_lines :: "string list \<Rightarrow> error + string list" where
  "feature_lines [] = Inr []"
| "feature_lines (line # lines) =
     (if fst (RegExp_test comment_re line 0) then feature_lines lines
      else (case String_match line FEATURE_STEP_RE of
              None \<Rightarrow> feature_lines lines
            | Some m \<Rightarrow>
                (case capture m 1 of
                   None \<Rightarrow> Inl TypeError
                 | Some m1 \<Rightarrow>
                     (case feature_lines lines of
                        Inl e \<Rightarrow> Inl e
                      | Inr steps \<Rightarrow> Inr (trim m1 # steps)))))"

definition extractFeatureSteps :: "string \<Rightarrow> error + string list" where
  "extractFeatureSteps featureText = feature_lines (String_split_re featureText line_break)"

section \<open>find-unused.mjs: main\<close>

text \<open>
  The files found by the glob patterns and their contents are the input: \<open>stepFiles\<close>
  is the list of the step files, each with the text that \<^verbatim>\<open>read\<close> returns for it, and
  \<open>featureTexts\<close> the texts of the feature files. The calls of
  \<^verbatim>\<open>extractStepPatternsFromSource\<close> run one after the other, each to its end, and the
  results are put together in the order of the files.
\<close>

fun extract_all :: "engine \<Rightarrow> (string \<times> string) list \<Rightarrow> nat \<Rightarrow> error + (step_pattern list \<times> nat)" where
  "extract_all eng [] lastIndex = Inr ([], lastIndex)"
| "extract_all eng ((f, src) # files) lastIndex =
     (case extractStepPatternsFromSource eng src f lastIndex of
        Inl e \<Rightarrow> Inl e
      | Inr (ps, li) \<Rightarrow>
          (case extract_all eng files li of
             Inl e \<Rightarrow> Inl e
           | Inr (qs, li') \<Rightarrow> Inr (ps @ qs, li')))"

fun all_feature_steps :: "string list \<Rightarrow> error + string list" where
  "all_feature_steps [] = Inr []"
| "all_feature_steps (t # ts) =
     (case extractFeatureSteps t of
        Inl e \<Rightarrow> Inl e
      | Inr steps \<Rightarrow>
          (case all_feature_steps ts of
             Inl e \<Rightarrow> Inl e
           | Inr others \<Rightarrow> Inr (steps @ others)))"

text \<open>\<^verbatim>\<open>featureCache.some((step) => p.regexp.test(step))\<close>, with the \<^verbatim>\<open>lastIndex\<close> of
  \<^verbatim>\<open>p.regexp\<close> passed from one call of \<^verbatim>\<open>test\<close> to the next.\<close>

fun some_test :: "engine \<Rightarrow> regexp_object \<Rightarrow> string list \<Rightarrow> nat \<Rightarrow> bool \<times> nat" where
  "some_test eng re [] lastIndex = (False, lastIndex)"
| "some_test eng re (step # steps) lastIndex =
     (case test eng re step lastIndex of
        (True, li) \<Rightarrow> (True, li)
      | (False, li) \<Rightarrow> some_test eng re steps li)"

text \<open>An entry of \<^verbatim>\<open>usage\<close>: the pattern and \<^verbatim>\<open>used\<close>, which is \<^verbatim>\<open>null\<close> (\<open>None\<close>),
  \<^verbatim>\<open>true\<close> or \<^verbatim>\<open>false\<close>.\<close>

record usage =
  pat :: step_pattern
  used :: "bool option"

definition usage_of :: "engine \<Rightarrow> string list \<Rightarrow> step_pattern \<Rightarrow> usage" where
  "usage_of eng featureCache p =
     (case regexp p of
        None \<Rightarrow> \<lparr>pat = p, used = None\<rparr>
      | Some re \<Rightarrow> \<lparr>pat = p, used = Some (fst (some_test eng re featureCache 0))\<rparr>)"

text \<open>What \<^verbatim>\<open>main\<close> reports: the lists \<^verbatim>\<open>usage\<close>, \<^verbatim>\<open>unused\<close>, \<^verbatim>\<open>parsed\<close> and
  \<^verbatim>\<open>skipped\<close>; the summary prints the lengths of the last three.\<close>

record report =
  usage_list :: "usage list"
  unused :: "usage list"
  parsed :: "usage list"
  skipped_list :: "usage list"

definition main :: "engine \<Rightarrow> (string \<times> string) list \<Rightarrow> string list \<Rightarrow> error + report" where
  "main eng stepFiles featureTexts =
     (case extract_all eng stepFiles 0 of
        Inl e \<Rightarrow> Inl e
      | Inr (allPatterns, li) \<Rightarrow>
          (case all_feature_steps featureTexts of
             Inl e \<Rightarrow> Inl e
           | Inr featureSteps \<Rightarrow>
               (let featureCache = map (\<lambda>s. s) featureSteps;
                    usage = map (usage_of eng featureCache) allPatterns
                in Inr \<lparr>usage_list = usage,
                        unused = filter (\<lambda>u. used u = Some False) usage,
                        parsed = filter (\<lambda>u. used u \<noteq> None) usage,
                        skipped_list = filter (\<lambda>u. used u = None) usage\<rparr>)))"


section \<open>Properties of the extraction\<close>

lemma special_literal: "RegExp_new (source special) ''g'' = Inr special"
  by code_simp

lemma group_special_literal: "RegExp_new (source group_special) ''g'' = Inr group_special"
  by code_simp

lemma white_space_literal: "RegExp_new (source white_space) ''g'' = Inr white_space"
  by code_simp

lemma regex_literal_re_literal: "RegExp_new (source regex_literal_re) ''i'' = Inr regex_literal_re"
  by code_simp

lemma STEP_CALL_RE_literal: "RegExp_new (source STEP_CALL_RE) ''g'' = Inr STEP_CALL_RE"
  by code_simp

lemma one_space_literal: "RegExp_new (source one_space) [] = Inr one_space"
  by code_simp

lemma FEATURE_STEP_RE_literal: "RegExp_new (source FEATURE_STEP_RE) ''i'' = Inr FEATURE_STEP_RE"
  by code_simp

lemma comment_re_literal: "RegExp_new (source comment_re) [] = Inr comment_re"
  by code_simp

lemma line_break_literal: "RegExp_new (source line_break) [] = Inr line_break"
  by code_simp

lemma step_patterns_of_total:
  assumes "capture m 1 \<noteq> None"
  shows "\<exists>ps. step_patterns_of eng f m = Inr ps"
proof -
  from assms obtain m1 where m1: "capture m 1 = Some m1" by auto
  show ?thesis
  proof (cases "prefix ''/'' (trim m1)")
    case True
    then have "trim m1 \<noteq> []" by auto
    from String_split_re_nonempty [OF this, of one_space] obtain lit pieces
      where "String_split_re (trim m1) one_space = lit # pieces"
      by (cases "String_split_re (trim m1) one_space") auto
    with m1 True show ?thesis
      by (auto simp: step_patterns_of_def Let_def split: option.splits prod.splits)
  next
    case False
    with m1 show ?thesis by (auto simp: step_patterns_of_def Let_def)
  qed
qed

lemma STEP_CALL_RE_exec_None:
  "RegExp_exec STEP_CALL_RE src lastIndex = (None, li) \<Longrightarrow> li = 0"
  by (auto simp: RegExp_exec_def Let_def STEP_CALL_RE_def g_flags_def no_flags_def
           split: if_splits option.splits)

text \<open>The loop always ends without an exception, and leaves \<^verbatim>\<open>lastIndex\<close> at 0.\<close>

lemma extract_loop_total: "\<exists>ps. extract_loop eng src f patterns lastIndex = Inr (ps, 0)"
proof (induction eng src f patterns lastIndex rule: extract_loop.induct)
  case (1 eng src f patterns lastIndex)
  obtain mo li where e: "RegExp_exec STEP_CALL_RE src lastIndex = (mo, li)"
    by (cases "RegExp_exec STEP_CALL_RE src lastIndex") auto
  show ?case
  proof (cases mo)
    case None
    with e STEP_CALL_RE_exec_None [of src lastIndex li] show ?thesis
      by (subst extract_loop.simps) simp
  next
    case (Some m)
    from STEP_CALL_RE_capture [OF e [unfolded Some]] step_patterns_of_total [of m eng f]
    obtain ps where ps: "step_patterns_of eng f m = Inr ps" by blast
    from "1.IH" [OF e [symmetric] Some ps] e Some ps show ?thesis
      by (subst extract_loop.simps) simp
  qed
qed

lemma extract_loop_invariant:
  "extract_loop eng src f patterns lastIndex = Inr (ps, li) \<Longrightarrow>
   (\<And>m qs p. step_patterns_of eng f m = Inr qs \<Longrightarrow> p \<in> set qs \<Longrightarrow> P p) \<Longrightarrow>
   (\<And>p. p \<in> set patterns \<Longrightarrow> P p) \<Longrightarrow> p \<in> set ps \<Longrightarrow> P p"
proof (induction eng src f patterns lastIndex rule: extract_loop.induct)
  case (1 eng src f patterns lastIndex)
  obtain mo l where e: "RegExp_exec STEP_CALL_RE src lastIndex = (mo, l)"
    by (cases "RegExp_exec STEP_CALL_RE src lastIndex") auto
  show ?case
  proof (cases mo)
    case None
    with e "1.prems" show ?thesis
      by (subst (asm) extract_loop.simps) simp
  next
    case (Some m)
    with e "1.prems"(1) obtain qs where qs: "step_patterns_of eng f m = Inr qs"
      and r: "extract_loop eng src f (patterns @ qs) l = Inr (ps, li)"
      by (subst (asm) extract_loop.simps) (auto split: sum.splits)
    have "P q" if "q \<in> set (patterns @ qs)" for q
      using that "1.prems"(3) "1.prems"(2) [OF qs] by auto
    from "1.IH" [OF e [symmetric] Some qs r "1.prems"(2) this "1.prems"(4)] show ?thesis .
  qed
qed


lemma extract_loop_prepend:
  "extract_loop eng src f (pre @ patterns) lastIndex =
     (case extract_loop eng src f patterns lastIndex of
        Inl e \<Rightarrow> Inl e
      | Inr (ps, li) \<Rightarrow> Inr (pre @ ps, li))"
proof (induction eng src f patterns lastIndex rule: extract_loop.induct)
  case (1 eng src f patterns lastIndex)
  obtain mo l where e: "RegExp_exec STEP_CALL_RE src lastIndex = (mo, l)"
    by (cases "RegExp_exec STEP_CALL_RE src lastIndex") auto
  show ?case
  proof (cases mo)
    case None
    with e show ?thesis
      by (subst (1 2) extract_loop.simps) simp
  next
    case (Some m)
    show ?thesis
    proof (cases "step_patterns_of eng f m")
      case (Inl err)
      with e Some show ?thesis
        by (subst (1 2) extract_loop.simps) simp
    next
      case (Inr qs)
      from "1.IH" [OF e [symmetric] Some Inr] e Some Inr show ?thesis
        by (subst (1 2) extract_loop.simps) simp
    qed
  qed
qed

lemma RegExp_test_0_False: "RegExp_test re s 0 = (False, li) \<Longrightarrow> li = 0"
  by (auto simp: RegExp_test_def RegExp_exec_def Let_def split: prod.splits option.splits if_splits)

lemma test_0_False: "test eng re s 0 = (False, li) \<Longrightarrow> li = 0"
  by (cases re)
     (auto simp: test_def Foreign_test_def Let_def dest: RegExp_test_0_False
           split: option.splits if_splits)

lemma some_test_0:
  "fst (some_test eng re steps 0) = (\<exists>step \<in> set steps. fst (test eng re step 0))"
proof (induction steps)
  case Nil
  show ?case by simp
next
  case (Cons step steps)
  obtain b li where t: "test eng re step 0 = (b, li)" by (cases "test eng re step 0") auto
  show ?case
  proof (cases b)
    case True
    with t show ?thesis by simp
  next
    case False
    with t test_0_False [of eng re step li] have "li = 0" by simp
    with t False Cons.IH show ?thesis by simp
  qed
qed

lemma parse_flags_i: "parse_flags ''i'' no_flags = Inr i_flags"
  by (simp add: no_flags_def i_flags_def)

lemma RegExp_new_Inr:
  "RegExp_new body fs = Inr re \<Longrightarrow> source re = body \<and> parse_flags fs no_flags = Inr (flags re)"
  by (auto simp: RegExp_new_def split: sum.splits)

lemma tryBuildRegExp_Compiled:
  "tryBuildRegExp eng body fs = Some (Compiled re) \<longleftrightarrow> RegExp_new body fs = Inr re"
  by (auto simp: tryBuildRegExp_def RegExp_construct_def split: sum.splits if_splits)

text \<open>What holds of every entry that the loop pushes.\<close>

definition pushed_ok :: "engine \<Rightarrow> step_pattern \<Rightarrow> bool" where
  "pushed_ok eng p =
     ((type p = Unparsed) = (regexp p = None)
      \<and> (type p \<noteq> Expr \<or> regexp p = tryBuildRegExp eng (cucumberExprToRegex (raw p)) ''i''))"

lemma expr_pattern_ok: "p \<in> set (expr_pattern eng f inner) \<Longrightarrow> pushed_ok eng p"
  by (auto simp: expr_pattern_def pushed_ok_def split: option.splits)

lemma step_patterns_of_ok: "step_patterns_of eng f m = Inr qs \<Longrightarrow> p \<in> set qs \<Longrightarrow> pushed_ok eng p"
  by (auto simp: step_patterns_of_def Let_def pushed_ok_def
           split: option.splits list.splits if_splits prod.splits
           dest: expr_pattern_ok)

lemma extract_all_ok: "extract_all eng files lastIndex = Inr (ps, li) \<Longrightarrow> p \<in> set ps \<Longrightarrow> pushed_ok eng p"
proof (induction files arbitrary: lastIndex ps)
  case Nil
  then show ?case by simp
next
  case (Cons fs files)
  obtain f src where fs: "fs = (f, src)" by (cases fs) auto
  from Cons.prems(1) fs obtain qs l rs where
    q: "extractStepPatternsFromSource eng src f lastIndex = Inr (qs, l)"
    and r: "extract_all eng files l = Inr (rs, li)" and ps: "ps = qs @ rs"
    by (auto split: sum.splits prod.splits)
  from Cons.prems(2) ps consider "p \<in> set qs" | "p \<in> set rs" by auto
  then show ?case
  proof cases
    case 1
    from extract_loop_invariant [OF q [unfolded extractStepPatternsFromSource_def], of "pushed_ok eng" p] 1
    show ?thesis using step_patterns_of_ok by auto
  next
    case 2
    from Cons.IH [OF r 2] show ?thesis .
  qed
qed

lemma main_usage:
  assumes "main eng stepFiles featureTexts = Inr r"
  obtains allPatterns li steps where
    "extract_all eng stepFiles 0 = Inr (allPatterns, li)"
    "all_feature_steps featureTexts = Inr steps"
    "usage_list r = map (usage_of eng steps) allPatterns"
  using assms by (auto simp: main_def Let_def split: sum.splits prod.splits)

section \<open>The passes of cucumberExprToRegex as list functions\<close>

text \<open>Replacing every occurrence of \<open>k\<close>, from left to right and without overlap, by \<open>v\<close>.\<close>

fun replace_all :: "'a list \<Rightarrow> 'a list \<Rightarrow> 'a list \<Rightarrow> 'a list" where
  "replace_all k v [] = []"
| "replace_all k v (c # cs) =
     (if prefix k (c # cs) then v @ replace_all k v (drop (length k - 1) cs)
      else c # replace_all k v cs)"

lemma split_at_nonempty: "split_at k s \<noteq> []"
  by (induction k s rule: split_at.induct) (auto split: list.splits)

lemma Array_join_Cons_Cons: "Array_join ((c # p) # ps) v = c # Array_join (p # ps) v"
  by (cases ps) auto

lemma Array_join_Nil_Cons: "ps \<noteq> [] \<Longrightarrow> Array_join ([] # ps) v = v @ Array_join ps v"
  by (cases ps) auto

lemma split_join_replace_all:
  "k \<noteq> [] \<Longrightarrow> Array_join (String_split s k) v = replace_all k v s"
proof (induction k s rule: split_at.induct)
  case (1 sep)
  then show ?case by (simp add: String_split_def)
next
  case (2 sep c cs)
  show ?case
  proof (cases "prefix sep (c # cs)")
    case True
    with 2 show ?thesis
      by (simp add: String_split_def Array_join_Nil_Cons split_at_nonempty)
  next
    case False
    obtain p ps where s: "split_at sep cs = p # ps"
      using split_at_nonempty [of sep cs] by (cases "split_at sep cs") auto
    with 2 False show ?thesis
      by (simp add: String_split_def Array_join_Cons_Cons)
  qed
qed

lemma replace_loop_Nil:
  "rmatch fl r (pv, [], []) = [] \<Longrightarrow> replace_loop fl r t pv [] = []"
  by (subst replace_loop.simps, subst search.simps) simp

lemma replace_loop_nomatch:
  "rmatch fl r (pv, c # cs, []) = [] \<Longrightarrow>
     replace_loop fl r t pv (c # cs) = c # replace_loop fl r t (Some c) cs"
  by (subst (1 2) replace_loop.simps, subst (1) search.simps)
     (auto split: option.splits prod.splits)

lemma replace_loop_match:
  "rmatch fl r (pv, rest, []) = (pv', rest', cp) # sts \<Longrightarrow> length rest' < length rest \<Longrightarrow>
     replace_loop fl r t pv rest
       = expand_template t (take (length rest - length rest') rest) @ replace_loop fl r t pv' rest'"
  by (subst (1) replace_loop.simps, subst (1) search.simps) simp

definition is_special :: "char \<Rightarrow> bool" where
  "is_special c = (c \<in> set (''.*+?^${}()|[]'' @ [BS]))"

definition esc :: "char \<Rightarrow> string" where
  "esc c = (if is_special c then [BS, c] else [c])"

lemma rmatch_special:
  "rmatch g_flags (pattern special) (pv, c # cs, cp) = (if is_special c then [(Some c, cs, cp)] else [])"
  by (auto simp: special_def set_mem_def g_flags_def no_flags_def is_special_def)

lemma rmatch_special_Nil: "rmatch g_flags (pattern special) (pv, [], cp) = []"
  by (simp add: special_def)

lemma replace_special: "replace_loop g_flags (pattern special) (BS # ''$&'') pv s = concat (map esc s)"
proof (induction s arbitrary: pv)
  case Nil
  show ?case by (simp add: replace_loop_Nil rmatch_special_Nil)
next
  case (Cons c cs)
  show ?case
  proof (cases "is_special c")
    case True
    then have "rmatch g_flags (pattern special) (pv, c # cs, []) = (Some c, cs, []) # []"
      by (simp add: rmatch_special)
    from replace_loop_match [OF this, of "BS # ''$&''"] True Cons.IH show ?thesis
      by (simp add: esc_def)
  next
    case False
    then have "rmatch g_flags (pattern special) (pv, c # cs, []) = []"
      by (simp add: rmatch_special)
    from replace_loop_nomatch [OF this, of "BS # ''$&''"] False Cons.IH show ?thesis
      by (simp add: esc_def)
  qed
qed

lemma escape_special_eq: "escape_special s = concat (map esc s)"
  by (simp add: escape_special_def String_replace_def replace_special special_def [THEN arg_cong, of flags]
      flip: special_def)


function wsr :: "string \<Rightarrow> string" where
  "wsr [] = []"
| "wsr (c # cs) =
     (if isWhiteSpace c then BS # ''s+'' @ wsr (dropWhile isWhiteSpace cs) else c # wsr cs)"
  by pat_completeness auto
termination
  by (relation "measure length") (auto simp: le_imp_less_Suc length_dropWhile_le)

lemma clear_caps_Nil [simp]: "clear_caps [] cp = cp"
  by (induction cp) (auto simp: clear_caps_def)

lemma set_mem_Space: "\<not> ignoreCase fl \<Longrightarrow> set_mem fl [CClass Space] c = isWhiteSpace c"
  by (simp add: set_mem_def)

lemma rmatch_ws_star:
  assumes "\<not> ignoreCase fl"
  shows "\<exists>pv' sts. rmatch fl (RRep 0 None True (RSet False [CClass Space])) (pv, rest, cp)
           = (pv', dropWhile isWhiteSpace rest, cp) # sts"
proof (induction rest arbitrary: pv)
  case Nil
  show ?case by (simp add: rmatch_RRep)
next
  case (Cons c cs)
  show ?case
  proof (cases "isWhiteSpace c")
    case True
    from Cons.IH [of "Some c"] obtain pv' sts where
      "rmatch fl (RRep 0 None True (RSet False [CClass Space])) (Some c, cs, cp)
         = (pv', dropWhile isWhiteSpace cs, cp) # sts" by blast
    with True assms show ?thesis
      by (subst rmatch_RRep) (simp add: set_mem_Space)
  next
    case False
    with assms show ?thesis
      by (subst rmatch_RRep) (simp add: set_mem_Space)
  qed
qed

lemma rmatch_ws_plus:
  assumes "\<not> ignoreCase fl"
  shows "rmatch fl (RRep 1 None True (RSet False [CClass Space])) (pv, [], cp) = []"
    and "\<not> isWhiteSpace c \<Longrightarrow>
           rmatch fl (RRep 1 None True (RSet False [CClass Space])) (pv, c # cs, cp) = []"
    and "isWhiteSpace c \<Longrightarrow>
           \<exists>pv' sts. rmatch fl (RRep 1 None True (RSet False [CClass Space])) (pv, c # cs, cp)
             = (pv', dropWhile isWhiteSpace cs, cp) # sts"
proof -
  show "rmatch fl (RRep 1 None True (RSet False [CClass Space])) (pv, [], cp) = []"
    by (simp add: rmatch_RRep)
  show "rmatch fl (RRep 1 None True (RSet False [CClass Space])) (pv, c # cs, cp) = []"
    if "\<not> isWhiteSpace c"
    using that assms by (simp add: rmatch_RRep set_mem_Space)
  show "\<exists>pv' sts. rmatch fl (RRep 1 None True (RSet False [CClass Space])) (pv, c # cs, cp)
             = (pv', dropWhile isWhiteSpace cs, cp) # sts"
    if "isWhiteSpace c"
    using that assms rmatch_ws_star [OF assms, of "Some c" cs cp]
    by (subst rmatch_RRep) (auto simp: set_mem_Space)
qed

lemma replace_white_space:
  "replace_loop g_flags (pattern white_space) (BS # ''s+'') pv s = wsr s"
proof (induction s arbitrary: pv rule: wsr.induct)
  case 1
  have "rmatch g_flags (pattern white_space) (pv, [], []) = []"
    by (simp add: white_space_def rmatch_RRep)
  then show ?case by (simp add: replace_loop_Nil)
next
  case (2 c cs)
  have ic: "\<not> ignoreCase g_flags" by (simp add: g_flags_def no_flags_def)
  show ?case
  proof (cases "isWhiteSpace c")
    case True
    from rmatch_ws_plus(3) [OF ic True, of pv cs "[]"] obtain pv' sts where
      m: "rmatch g_flags (pattern white_space) (pv, c # cs, []) = (pv', dropWhile isWhiteSpace cs, []) # sts"
      by (auto simp: white_space_def)
    have "length (dropWhile isWhiteSpace cs) < length (c # cs)"
      using length_dropWhile_le [of isWhiteSpace cs] by simp
    from replace_loop_match [OF m this, of "BS # ''s+''"] "2.IH"(1) [OF True, of pv'] True
    show ?thesis by simp
  next
    case False
    from rmatch_ws_plus(2) [OF ic False, of pv cs "[]"]
    have "rmatch g_flags (pattern white_space) (pv, c # cs, []) = []"
      by (simp add: white_space_def)
    from replace_loop_nomatch [OF this, of "BS # ''s+''"] "2.IH"(2) [OF False, of "Some c"] False
    show ?thesis by simp
  qed
qed

lemma flexible_whitespace_eq: "flexible_whitespace s = wsr s"
  by (simp add: flexible_whitespace_def String_replace_def replace_white_space
      white_space_def [THEN arg_cong, of flags] flip: white_space_def)

text \<open>The values of the table with the characters of the second escaping pass escaped.\<close>

definition int_escaped :: string where
  "int_escaped = BS # ''('' @ BS # ''-'' @ BS # ''?'' @ BS # BS # ''d'' @ BS # ''+'' @ BS # '')''"

definition float_escaped :: string where
  "float_escaped = BS # ''('' @ BS # ''-'' @ BS # ''?'' @ BS # BS # ''d'' @ BS # ''+'' @ BS # ''(''
     @ BS # ''?:'' @ BS # ''['' @ BS # ''.,'' @ BS # '']'' @ BS # BS # ''d'' @ BS # ''+'' @ BS # '')''
     @ BS # ''?'' @ BS # '')''"

definition uuid_escaped :: string where
  "uuid_escaped = escaped uuid_group"

lemma escaped_values:
  "escaped int_group = int_escaped"
  "escaped float_group = float_escaped"
  "escaped word_group = concat (map esc word_group)"
  "escaped string_group = concat (map esc string_group)"
  "escaped any_group = concat (map esc any_group)"
  by code_simp+

definition substitute' :: "string \<Rightarrow> string" where
  "substitute' s = foldl (\<lambda>s (k, v). replace_all k v s) s param_map"

lemma substitute_eq: "substitute s = substitute' s"
  by (simp add: substitute_def substitute'_def param_map_def split_join_replace_all)

definition reinsert' :: "string \<Rightarrow> string" where
  "reinsert' s =
     replace_all (concat (map esc any_group)) any_group
       (replace_all uuid_escaped uuid_group
         (replace_all int_escaped int_group
           (replace_all float_escaped float_group
             (replace_all int_escaped int_group
               (replace_all int_escaped int_group
                 (replace_all int_escaped int_group
                   (replace_all (concat (map esc string_group)) string_group
                     (replace_all (concat (map esc word_group)) word_group
                       (replace_all float_escaped float_group
                         (replace_all int_escaped int_group s))))))))))"

lemma escaped_nonempty:
  "int_escaped \<noteq> []" "float_escaped \<noteq> []" "uuid_escaped \<noteq> []"
  "concat (map esc word_group) \<noteq> []" "concat (map esc string_group) \<noteq> []"
  "concat (map esc any_group) \<noteq> []"
  by (simp_all add: int_escaped_def float_escaped_def uuid_escaped_def word_group_def
        string_group_def any_group_def esc_def, code_simp)

lemma reinsert_eq: "reinsert s = reinsert' s"
  by (simp add: reinsert_def reinsert'_def param_map_def escaped_values
        split_join_replace_all [OF escaped_nonempty(1)]
        split_join_replace_all [OF escaped_nonempty(2)]
        split_join_replace_all [OF escaped_nonempty(3)]
        split_join_replace_all [OF escaped_nonempty(4)]
        split_join_replace_all [OF escaped_nonempty(5)]
        split_join_replace_all [OF escaped_nonempty(6)]
        flip: uuid_escaped_def)

lemma cucumberExprToRegex_eq:
  "cucumberExprToRegex e = ''^'' @ wsr (reinsert' (concat (map esc (substitute' (trim e))))) @ ''$''"
  by (simp add: cucumberExprToRegex_def flexible_whitespace_eq reinsert_eq escape_special_eq
        substitute_eq)

section \<open>The compiled pattern as a sequence of units\<close>

abbreviation DQ :: char where "DQ \<equiv> CHR 0x22"
abbreviation BQ :: char where "BQ \<equiv> CHR 0x60"

datatype unit = ULit char | UWord | UString | UAny | UWs

fun render :: "unit \<Rightarrow> string" where
  "render (ULit c) = esc c"
| "render UWord = word_group"
| "render UString = string_group"
| "render UAny = any_group"
| "render UWs = BS # ''s+''"

definition rl :: "unit list \<Rightarrow> string" where
  "rl us = concat (map render us)"

lemma rl_simps [simp]:
  "rl [] = []" "rl (u # us) = render u @ rl us" "rl (us @ vs) = rl us @ rl vs"
  by (simp_all add: rl_def)

lemma rl_map_ULit: "rl (map ULit s) = concat (map esc s)"
  by (induction s) auto

lemma replace_all_prefix: "k \<noteq> [] \<Longrightarrow> replace_all k v (k @ X) = v @ replace_all k v X"
  by (cases k) auto

fun nowhere :: "'a list \<Rightarrow> 'a list \<Rightarrow> 'a list \<Rightarrow> bool" where
  "nowhere k [] X = True"
| "nowhere k (c # cs) X = (\<not> prefix k (c # cs @ X) \<and> nowhere k cs X)"

lemma replace_all_skip: "nowhere k w X \<Longrightarrow> replace_all k v (w @ X) = w @ replace_all k v X"
  by (induction w) auto

lemma render_nonempty [simp]: "render u \<noteq> []"
  by (cases u) (auto simp: esc_def word_group_def string_group_def any_group_def)

text \<open>A pass that puts a group back, on a rendered sequence of units.\<close>

lemma pass_generic:
  assumes pt: "pt \<noteq> []"
    and rv: "render uv = v"
    and P1: "\<And>us. prefix (rl pt) (rl us) \<longleftrightarrow> prefix pt us"
    and P2: "\<And>u us. nowhere (rl pt) (tl (render u)) (rl us)"
  shows "replace_all (rl pt) v (rl us) = rl (replace_all pt [uv] us)"
proof (induction us rule: length_induct)
  case (1 us)
  show ?case
  proof (cases us)
    case Nil
    then show ?thesis by simp
  next
    case (Cons u us')
    have ne: "rl pt \<noteq> []" using pt by (cases pt) auto
    show ?thesis
    proof (cases "prefix pt (u # us')")
      case True
      then obtain r where r: "u # us' = pt @ r" by (auto simp: prefix_def)
      then have d: "drop (length pt - 1) us' = r"
        using pt by (cases pt) auto
      have "length r < length us" using r Cons pt by (cases pt) auto
      with 1 have "replace_all (rl pt) v (rl r) = rl (replace_all pt [uv] r)" by blast
      with Cons r ne rv show ?thesis
        using replace_all_prefix [OF ne, of v "rl r"] replace_all_prefix [OF pt, of "[uv]" r]
        by (simp del: replace_all.simps)
    next
      case False
      obtain c cs where rc: "render u = c # cs"
        using render_nonempty [of u] by (cases "render u") auto
      from False P1 [of "u # us'"] have "\<not> prefix (rl pt) (render u @ rl us')" by simp
      with P2 [of u us'] rc have "nowhere (rl pt) (render u) (rl us')" by simp
      from replace_all_skip [OF this, of v]
      have "replace_all (rl pt) v (rl (u # us')) = render u @ replace_all (rl pt) v (rl us')"
        by simp
      moreover have "replace_all (rl pt) v (rl us') = rl (replace_all pt [uv] us')"
        using 1 Cons by simp
      ultimately show ?thesis using False Cons by simp
    qed
  qed
qed


lemma BS_special [simp]: "is_special BS"
  by (simp add: is_special_def)

lemma esc_prefix_esc:
  "prefix (esc c @ P) (esc d @ R) \<longleftrightarrow> c = d \<and> prefix P R"
  by (auto simp: esc_def)

lemma prefix_esc_unit:
  assumes "c \<noteq> DQ \<or> (P \<noteq> [] \<and> hd P \<noteq> CHR ''('')"
  shows "prefix (esc c @ P) (rl us) \<longleftrightarrow> (\<exists>us'. us = ULit c # us' \<and> prefix P (rl us'))"
proof (cases us)
  case Nil
  then show ?thesis by (simp add: esc_def)
next
  case (Cons u us')
  show ?thesis
  proof (cases u)
    case (ULit d)
    with Cons show ?thesis by (auto simp: esc_prefix_esc)
  next
    case UWord
    with Cons show ?thesis by (auto simp: esc_def word_group_def is_special_def)
  next
    case UString
    show ?thesis
    proof (cases "c = DQ")
      case True
      with assms obtain p P' where "P = p # P'" "p \<noteq> CHR ''(''" by (cases P) auto
      with Cons UString True show ?thesis by (simp add: esc_def string_group_def is_special_def)
    next
      case False
      with Cons UString show ?thesis by (auto simp: esc_def string_group_def)
    qed
  next
    case UAny
    with Cons show ?thesis by (auto simp: esc_def any_group_def is_special_def)
  next
    case UWs
    with Cons show ?thesis by (auto simp: esc_def is_special_def)
  qed
qed

fun dq_ok :: "string \<Rightarrow> bool" where
  "dq_ok [] = True"
| "dq_ok [c] = (c \<noteq> DQ)"
| "dq_ok (c # d # cs) = ((c = DQ \<longrightarrow> is_special d) \<and> dq_ok (d # cs))"

lemma prefix_lits:
  "dq_ok v \<Longrightarrow> prefix (rl (map ULit v)) (rl us) \<longleftrightarrow> prefix (map ULit v) us"
proof (induction v arbitrary: us rule: dq_ok.induct)
  case 1
  show ?case by simp
next
  case (2 c)
  then show ?case using prefix_esc_unit [of c "[]" us] by (cases us) auto
next
  case (3 c d cs)
  have "c \<noteq> DQ \<or> (esc d @ rl (map ULit cs) \<noteq> [] \<and> hd (esc d @ rl (map ULit cs)) \<noteq> CHR ''('')"
    using "3.prems" by (auto simp: esc_def)
  from prefix_esc_unit [of c "esc d @ rl (map ULit cs)" us, OF this] "3.IH" "3.prems"
  show ?case by (cases us) auto
qed

text \<open>The three groups that the second pass puts back.\<close>

lemma not_prefix_paren_BS:
  "\<not> prefix (CHR ''('' # BS # BS # P) (rl us)" "\<not> prefix (CHR ''('' # BS # CHR ''.'' # P) (rl us)"
  "\<not> prefix (CHR ''('' # BS # CHR ''-'' # P) (rl us)" "\<not> prefix (CHR ''('' # BS # CHR ''['' # P) (rl us)"
proof -
  have "\<not> prefix (CHR ''('' # BS # x # P) (rl us)" if "x \<noteq> CHR ''S''" for x
  proof (cases us)
    case Nil
    then show ?thesis by simp
  next
    case (Cons u us')
    with that show ?thesis
      by (cases u) (auto simp: esc_def is_special_def word_group_def string_group_def any_group_def)
  qed
  then show "\<not> prefix (CHR ''('' # BS # BS # P) (rl us)" "\<not> prefix (CHR ''('' # BS # CHR ''.'' # P) (rl us)"
    "\<not> prefix (CHR ''('' # BS # CHR ''-'' # P) (rl us)" "\<not> prefix (CHR ''('' # BS # CHR ''['' # P) (rl us)"
    by simp_all
qed

lemma word_inner: "nowhere (rl (map ULit word_group)) (tl (render u)) (rl us)"
  by (cases u)
     (auto simp: esc_def is_special_def word_group_def string_group_def any_group_def
        not_prefix_paren_BS)

lemma any_inner: "nowhere (rl (map ULit any_group)) (tl (render u)) (rl us)"
  by (cases u)
     (auto simp: esc_def is_special_def word_group_def string_group_def any_group_def
        not_prefix_paren_BS)

lemma string_inner: "nowhere (rl (map ULit string_group)) (tl (render u)) (rl us)"
  by (cases u)
     (auto simp: esc_def is_special_def word_group_def string_group_def any_group_def)

lemma dq_ok_groups: "dq_ok word_group" "dq_ok string_group" "dq_ok any_group"
  by (simp_all add: word_group_def string_group_def any_group_def is_special_def)

lemma pass_word:
  "replace_all (concat (map esc word_group)) word_group (rl us)
     = rl (replace_all (map ULit word_group) [UWord] us)"
  using pass_generic [of "map ULit word_group" UWord word_group us]
        prefix_lits [OF dq_ok_groups(1)] word_inner
  by (simp add: rl_map_ULit word_group_def)

lemma pass_string:
  "replace_all (concat (map esc string_group)) string_group (rl us)
     = rl (replace_all (map ULit string_group) [UString] us)"
  using pass_generic [of "map ULit string_group" UString string_group us]
        prefix_lits [OF dq_ok_groups(2)] string_inner
  by (simp add: rl_map_ULit string_group_def)

lemma pass_any:
  "replace_all (concat (map esc any_group)) any_group (rl us)
     = rl (replace_all (map ULit any_group) [UAny] us)"
  using pass_generic [of "map ULit any_group" UAny any_group us]
        prefix_lits [OF dq_ok_groups(3)] any_inner
  by (simp add: rl_map_ULit any_group_def)


text \<open>The groups with a dash: the second pass finds nothing to put back.\<close>

lemma noop_pass:
  assumes "\<And>u us. nowhere K (render u) (rl us)"
  shows "replace_all K v (rl us) = rl us"
proof (induction us)
  case Nil
  show ?case by simp
next
  case (Cons u us)
  from replace_all_skip [OF assms [of u us], of v] Cons show ?case by simp
qed

lemma not_prefix_BS_dash: "\<not> prefix (BS # CHR ''-'' # P) (rl us)"
proof (cases us)
  case Nil
  then show ?thesis by simp
next
  case (Cons u us')
  then show ?thesis
    by (cases u) (auto simp: esc_def is_special_def word_group_def string_group_def any_group_def)
qed

lemma int_escaped_never: "nowhere int_escaped (render u) (rl us)"
  by (cases u)
     (auto simp: int_escaped_def esc_def is_special_def word_group_def string_group_def
        any_group_def not_prefix_paren_BS not_prefix_BS_dash)

lemma float_escaped_never: "nowhere float_escaped (render u) (rl us)"
  by (cases u)
     (auto simp: float_escaped_def esc_def is_special_def word_group_def string_group_def
        any_group_def not_prefix_paren_BS not_prefix_BS_dash)

lemma uuid_escaped_head:
  "uuid_escaped = BS # CHR ''('' # BS # CHR ''['' # CHR ''0'' # BS # CHR ''-'' # drop 7 uuid_escaped"
proof -
  have "take 7 uuid_escaped = [BS, CHR ''('', BS, CHR ''['', CHR ''0'', BS, CHR ''-'']"
    unfolding uuid_escaped_def by code_simp
  then show ?thesis
    by (metis append_take_drop_id append_Cons append_Nil)
qed

lemma not_prefix_uuid_tail: "\<not> prefix (BS # CHR ''['' # CHR ''0'' # BS # CHR ''-'' # P) (rl us)"
proof -
  have e: "BS # CHR ''['' # CHR ''0'' # BS # CHR ''-'' # P
            = esc CHR ''['' @ esc CHR ''0'' @ BS # CHR ''-'' # P"
    by (simp add: esc_def is_special_def)
  show ?thesis
    unfolding e by (simp add: prefix_esc_unit not_prefix_BS_dash)
qed

lemma uuid_escaped_never: "nowhere uuid_escaped (render u) (rl us)"
  by (subst uuid_escaped_head, cases u)
     (auto simp: esc_def is_special_def word_group_def string_group_def
        any_group_def not_prefix_paren_BS not_prefix_uuid_tail)

text \<open>White space: a run of literal white-space characters becomes one unit.\<close>

fun is_ws_unit :: "unit \<Rightarrow> bool" where
  "is_ws_unit (ULit c) = isWhiteSpace c"
| "is_ws_unit u = False"

function cws :: "unit list \<Rightarrow> unit list" where
  "cws [] = []"
| "cws (u # us) = (if is_ws_unit u then UWs # cws (dropWhile is_ws_unit us) else u # cws us)"
  by pat_completeness auto
termination
  by (relation "measure length") (auto simp: le_imp_less_Suc length_dropWhile_le)

lemma ws_not_special: "isWhiteSpace c \<Longrightarrow> \<not> is_special c"
  by (auto simp: isWhiteSpace_def is_special_def)

lemma BS_not_ws [simp]: "\<not> isWhiteSpace BS"
  by (simp add: isWhiteSpace_def)

lemma render_ws: "is_ws_unit u \<Longrightarrow> \<exists>c. render u = [c] \<and> isWhiteSpace c"
  by (cases u) (auto simp: esc_def ws_not_special)

lemma render_not_ws: "\<not> is_ws_unit u \<Longrightarrow> \<forall>c \<in> set (render u). \<not> isWhiteSpace c"
  by (cases u)
     (auto simp: esc_def word_group_def string_group_def any_group_def isWhiteSpace_def)

lemma dropWhile_rl: "dropWhile isWhiteSpace (rl us) = rl (dropWhile is_ws_unit us)"
proof (induction us)
  case Nil
  show ?case by simp
next
  case (Cons u us)
  show ?case
  proof (cases "is_ws_unit u")
    case True
    with render_ws [OF True] Cons show ?thesis by auto
  next
    case False
    obtain c cs where rc: "render u = c # cs"
      using render_nonempty [of u] by (cases "render u") auto
    with render_not_ws [OF False] have "\<not> isWhiteSpace c" by simp
    with rc False show ?thesis by simp
  qed
qed

lemma wsr_no_ws: "\<forall>c \<in> set w. \<not> isWhiteSpace c \<Longrightarrow> wsr (w @ X) = w @ wsr X"
  by (induction w) auto

lemma wsr_rl: "wsr (rl us) = rl (cws us)"
proof (induction us rule: cws.induct)
  case 1
  show ?case by simp
next
  case (2 u us)
  show ?case
  proof (cases "is_ws_unit u")
    case True
    from render_ws [OF True] obtain c where c: "render u = [c]" "isWhiteSpace c" by blast
    with True "2.IH"(1) show ?thesis by (simp add: dropWhile_rl)
  next
    case False
    from wsr_no_ws [OF render_not_ws [OF False], of "rl us"] False "2.IH"(2)
    show ?thesis by simp
  qed
qed

text \<open>The units of the pattern compiled from an expression body.\<close>

definition restore :: "unit list \<Rightarrow> unit list" where
  "restore us =
     replace_all (map ULit any_group) [UAny]
       (replace_all (map ULit string_group) [UString]
         (replace_all (map ULit word_group) [UWord] us))"

definition final_units :: "string \<Rightarrow> unit list" where
  "final_units e = cws (restore (map ULit (substitute' (trim e))))"

lemma reinsert_rl: "reinsert' (rl us) = rl (restore us)"
  by (simp add: reinsert'_def restore_def pass_word pass_string pass_any
        noop_pass [of int_escaped, OF int_escaped_never]
        noop_pass [of float_escaped, OF float_escaped_never]
        noop_pass [of uuid_escaped, OF uuid_escaped_never])

theorem cucumberExprToRegex_units:
  "cucumberExprToRegex e = ''^'' @ rl (final_units e) @ ''$''"
  by (simp add: cucumberExprToRegex_eq final_units_def reinsert_rl wsr_rl
        flip: rl_map_ULit)

section \<open>Parsing the compiled pattern\<close>

fun toks :: "unit \<Rightarrow> token list" where
  "toks (ULit c) = [TAtom (RChar c)]"
| "toks UWs = [TAtom (RSet False [CClass Space]), TQuant 1 None True]"
| "toks UWord = [TOpen True, TAtom (RSet False [CNotClass Space]), TQuant 1 None True, TClose]"
| "toks UAny = [TOpen True, TAtom RDot, TQuant 1 None True, TClose]"
| "toks UString =
     [TAtom (RChar DQ), TOpen True, TAtom (RSet True [CChar DQ]), TQuant 0 None True, TClose,
      TAtom (RChar DQ), TBar,
      TAtom (RChar SQ), TOpen True, TAtom (RSet True [CChar SQ]), TQuant 0 None True, TClose,
      TAtom (RChar SQ), TBar,
      TAtom (RChar BQ), TOpen True, TAtom (RSet True [CChar BQ]), TQuant 0 None True, TClose,
      TAtom (RChar BQ)]"

lemma lex_Cons:
  "lex (c # X) =
     (case next_token (c # X) of
        Inl e \<Rightarrow> Inl e
      | Inr (t, r) \<Rightarrow> (case lex r of Inl e \<Rightarrow> Inl e | Inr ts \<Rightarrow> Inr (t # ts)))"
  by (subst lex.simps) simp

lemma lex_Nil: "lex [] = Inr []"
  by (subst lex.simps) simp

lemma hd_render_not_qm: "\<not> prefix ''?'' (render u @ X)"
  by (cases u) (auto simp: esc_def is_special_def word_group_def string_group_def any_group_def)

lemma not_qm_rl: "\<not> prefix ''?'' rest \<Longrightarrow> \<not> prefix ''?'' (rl us @ rest)"
  by (cases us) (auto simp: hd_render_not_qm simp del: Cons_prefix_Cons)


lemma special_cases: "is_special c \<Longrightarrow> c \<in> {CHR ''.'', CHR ''*'', CHR ''+'', CHR ''?'', CHR ''^'', CHR ''$'', CHR ''{'', CHR ''}'', CHR ''('', CHR '')'', CHR ''|'', CHR ''['', CHR '']'', BS}"
  by (simp add: is_special_def)

lemma lex_escape_special:
  "is_special c \<Longrightarrow> lex_escape (c # X) = Inr (TAtom (RChar c), X)"
  apply (drule special_cases)
  apply (simp only: insert_iff empty_iff)
  apply (elim disjE)
  apply (simp_all add: lex_escape_def class_escape_def char_escape_def isDigit_def in_range_def)
  done


lemma next_token_esc_special:
  "is_special c \<Longrightarrow> next_token (BS # c # X) = Inr (TAtom (RChar c), X)"
  by (simp add: next_token_def lex_escape_special)

lemma next_token_plain:
  "\<not> is_special c \<Longrightarrow> next_token (c # X) = Inr (TAtom (RChar c), X)"
  unfolding is_special_def
  by (simp add: next_token_def)

lemma lex_lit: "lex (esc c @ X) = (case lex X of Inl e \<Rightarrow> Inl e | Inr ts \<Rightarrow> Inr (TAtom (RChar c) # ts))"
  by (cases "is_special c")
     (simp_all add: esc_def lex_Cons next_token_esc_special next_token_plain)

lemma lex_ws:
  "\<not> prefix ''?'' X \<Longrightarrow>
   lex (BS # CHR ''s'' # CHR ''+'' # X)
     = (case lex X of Inl e \<Rightarrow> Inl e | Inr ts \<Rightarrow> Inr (toks UWs @ ts))"
  by (simp add: lex_Cons next_token_def lex_escape_def class_escape_def quantifier_def split: sum.splits)

lemma lex_word:
  "lex (word_group @ X) = (case lex X of Inl e \<Rightarrow> Inl e | Inr ts \<Rightarrow> Inr (toks UWord @ ts))"
  by (simp add: word_group_def lex_Cons next_token_def lex_escape_def class_escape_def
        quantifier_def split: sum.splits)

lemma lex_any:
  "lex (any_group @ X) = (case lex X of Inl e \<Rightarrow> Inl e | Inr ts \<Rightarrow> Inr (toks UAny @ ts))"
  by (simp add: any_group_def lex_Cons next_token_def quantifier_def split: sum.splits)

lemma class_items_not_char:
  "c \<noteq> CHR '']'' \<Longrightarrow> c \<noteq> BS \<Longrightarrow> class_items (c # CHR '']'' # X) [] = Inr ([CChar c], X)"
  by (simp add: class_items.simps class_atom_def)

lemma lex_string:
  "lex (string_group @ X) = (case lex X of Inl e \<Rightarrow> Inl e | Inr ts \<Rightarrow> Inr (toks UString @ ts))"
  by (simp add: string_group_def lex_Cons next_token_def quantifier_def class_items_not_char
        split: sum.splits)

lemma lex_units:
  "\<not> prefix ''?'' rest \<Longrightarrow>
   lex (rl us @ rest) = (case lex rest of Inl e \<Rightarrow> Inl e | Inr ts \<Rightarrow> Inr (concat (map toks us) @ ts))"
proof (induction us)
  case Nil
  then show ?case by (simp split: sum.splits)
next
  case (Cons u us)
  from not_qm_rl [OF Cons.prems] have nq: "\<not> prefix ''?'' (rl us @ rest)" .
  show ?case
    by (cases u)
       (simp_all add: lex_lit lex_ws [OF nq] lex_word lex_any lex_string Cons.IH [OF Cons.prems]
          split: sum.splits)
qed


text \<open>What the parser adds for one unit, outside of any group: the alternatives that are
  complete, the terms of the current alternative, and the number of groups so far.\<close>

definition quoted :: "char \<Rightarrow> nat \<Rightarrow> regex list" where
  "quoted q n = [RChar q, RGroup n (RRep 0 None True (RSet True [CChar q])), RChar q]"

fun pstep :: "unit \<Rightarrow> regex list \<times> regex list \<times> nat \<Rightarrow> regex list \<times> regex list \<times> nat" where
  "pstep (ULit c) (alts, terms, n) = (alts, terms @ [RChar c], n)"
| "pstep UWs (alts, terms, n) = (alts, terms @ [RRep 1 None True (RSet False [CClass Space])], n)"
| "pstep UWord (alts, terms, n) =
     (alts, terms @ [RGroup (Suc n) (RRep 1 None True (RSet False [CNotClass Space]))], Suc n)"
| "pstep UAny (alts, terms, n) = (alts, terms @ [RGroup (Suc n) (RRep 1 None True RDot)], Suc n)"
| "pstep UString (alts, terms, n) =
     (alts @ [mk_seq (terms @ quoted DQ (Suc n)), mk_seq (quoted SQ (Suc (Suc n)))],
      quoted BQ (Suc (Suc (Suc n))), Suc (Suc (Suc n)))"

fun punits :: "unit list \<Rightarrow> regex list \<times> regex list \<times> nat \<Rightarrow> regex list \<times> regex list \<times> nat" where
  "punits [] st = st"
| "punits (u # us) st = punits us (pstep u st)"

lemma parse_unit:
  "\<exists>q'. parse_tokens (toks u @ ts) [] alts terms q n
     = (case pstep u (alts, terms, n) of (alts', terms', n') \<Rightarrow> parse_tokens ts [] alts' terms' q' n')"
  by (cases u) (auto simp: close_group_def quoted_def)

lemma parse_units:
  "\<exists>q'. parse_tokens (concat (map toks us) @ ts) [] alts terms q n
     = (case punits us (alts, terms, n) of (alts', terms', n') \<Rightarrow> parse_tokens ts [] alts' terms' q' n')"
proof (induction us arbitrary: alts terms q n)
  case Nil
  show ?case by auto
next
  case (Cons u us)
  obtain a t m where p: "pstep u (alts, terms, n) = (a, t, m)"
    by (cases "pstep u (alts, terms, n)") auto
  from parse_unit [of u "concat (map toks us) @ ts" alts terms q n] p obtain q1 where
    "parse_tokens (toks u @ concat (map toks us) @ ts) [] alts terms q n
       = parse_tokens (concat (map toks us) @ ts) [] a t q1 m" by auto
  with Cons.IH [of a t q1 m] p show ?case by auto
qed

text \<open>The pattern that \<^verbatim>\<open>new RegExp\<close> builds from the source that
  \<^verbatim>\<open>cucumberExprToRegex\<close> returns for a body.\<close>

definition compiled_pattern :: "string \<Rightarrow> regex" where
  "compiled_pattern e =
     (case punits (final_units e) ([], [RBol], 0) of
        (alts, terms, n) \<Rightarrow> close_group alts (terms @ [REol]))"

lemma expression_compiles:
  "RegExp_new (cucumberExprToRegex e) ''i''
     = Inr \<lparr>source = cucumberExprToRegex e, flags = i_flags, pattern = compiled_pattern e\<rparr>"
proof -
  have l1: "lex ''$'' = Inr [TAssert REol]"
    by (simp add: lex_Cons lex_Nil next_token_def)
  have "lex (rl (final_units e) @ ''$'') = Inr (concat (map toks (final_units e)) @ [TAssert REol])"
    using lex_units [of "''$''" "final_units e"] l1 by simp
  then have l: "lex (cucumberExprToRegex e)
                  = Inr (TAssert RBol # concat (map toks (final_units e)) @ [TAssert REol])"
    by (simp add: cucumberExprToRegex_units lex_Cons next_token_def)
  obtain alts terms n where p: "punits (final_units e) ([], [RBol], 0) = (alts, terms, n)"
    by (cases "punits (final_units e) ([], [RBol], 0)") auto
  from parse_units [of "final_units e" "[TAssert REol]" "[]" "[RBol]" False 0] p obtain q' where
    "parse_tokens (concat (map toks (final_units e)) @ [TAssert REol]) [] [] [RBol] False 0
       = parse_tokens [TAssert REol] [] alts terms q' n" by auto
  then have "parse_tokens (TAssert RBol # concat (map toks (final_units e)) @ [TAssert REol])
               [] [] [] False 0 = Inr (close_group alts (terms @ [REol]))"
    by simp
  with l p show ?thesis
    unfolding RegExp_new_def parse_flags_i
    by (simp add: compiled_pattern_def)
qed

text \<open>An expression always compiles, inside the modelled grammar.\<close>

lemma expression_builds:
  "tryBuildRegExp eng (cucumberExprToRegex e) ''i''
     = Some (Compiled \<lparr>source = cucumberExprToRegex e, flags = i_flags,
                        pattern = compiled_pattern e\<rparr>)"
  by (simp add: tryBuildRegExp_def RegExp_construct_def expression_compiles)

section \<open>What the terms of a compiled pattern match\<close>

text \<open>The texts left over by the matches of \<open>r\<close> from a state.\<close>

definition ends :: "rflags \<Rightarrow> regex \<Rightarrow> mstate \<Rightarrow> string set" where
  "ends fl r st = (fst \<circ> snd) ` set (rmatch fl r st)"

text \<open>\<open>r\<close> matches the texts in \<open>L\<close>, wherever it is tried.\<close>

definition has_lang :: "rflags \<Rightarrow> regex \<Rightarrow> (string \<Rightarrow> bool) \<Rightarrow> bool" where
  "has_lang fl r L = (\<forall>pv s cp. ends fl r (pv, s, cp) = {R. \<exists>t. s = t @ R \<and> L t})"


lemma ends_RSeq: "ends fl (RSeq a b) st = (\<Union>st' \<in> set (rmatch fl a st). ends fl b st')"
  by (auto simp: ends_def)

lemma ends_RAlt: "ends fl (RAlt a b) st = ends fl a st \<union> ends fl b st"
  by (auto simp: ends_def)

lemma ends_RGroup: "ends fl (RGroup n r) (pv, s, cp) = ends fl r (pv, s, cp)"
  by (force simp: ends_def image_iff)

lemma has_lang_REmpty: "has_lang fl REmpty (\<lambda>t. t = [])"
  by (simp add: has_lang_def ends_def)

lemma has_lang_RGroup: "has_lang fl r L \<Longrightarrow> has_lang fl (RGroup n r) L"
  by (simp add: has_lang_def ends_RGroup)

lemma has_lang_RSeq:
  assumes a: "has_lang fl a La" and b: "has_lang fl b Lb"
  shows "has_lang fl (RSeq a b) (\<lambda>t. \<exists>t1 t2. t = t1 @ t2 \<and> La t1 \<and> Lb t2)"
  unfolding has_lang_def
proof (intro allI set_eqI iffI)
  fix pv s cp R
  assume "R \<in> ends fl (RSeq a b) (pv, s, cp)"
  then obtain pv' s' cp' where m: "(pv', s', cp') \<in> set (rmatch fl a (pv, s, cp))"
    and R: "R \<in> ends fl b (pv', s', cp')"
    by (auto simp: ends_RSeq)
  from m have "s' \<in> ends fl a (pv, s, cp)" by (force simp: ends_def)
  with a obtain t1 where "s = t1 @ s'" "La t1" by (auto simp: has_lang_def)
  moreover from R b obtain t2 where "s' = t2 @ R" "Lb t2" by (auto simp: has_lang_def)
  ultimately show "R \<in> {R. \<exists>t. s = t @ R \<and> (\<exists>t1 t2. t = t1 @ t2 \<and> La t1 \<and> Lb t2)}"
    by auto
next
  fix pv s cp R
  assume "R \<in> {R. \<exists>t. s = t @ R \<and> (\<exists>t1 t2. t = t1 @ t2 \<and> La t1 \<and> Lb t2)}"
  then obtain t1 t2 where s: "s = t1 @ t2 @ R" and l: "La t1" "Lb t2" by auto
  with a have "t2 @ R \<in> ends fl a (pv, s, cp)" by (auto simp: has_lang_def)
  then obtain pv' cp' where m: "(pv', t2 @ R, cp') \<in> set (rmatch fl a (pv, s, cp))"
    by (auto simp: ends_def)
  from b l have "R \<in> ends fl b (pv', t2 @ R, cp')" by (auto simp: has_lang_def)
  with m show "R \<in> ends fl (RSeq a b) (pv, s, cp)" by (auto simp: ends_RSeq)
qed

text \<open>A term that matches one character.\<close>

fun is_atom :: "regex \<Rightarrow> bool" where
  "is_atom (RChar a) = True"
| "is_atom RDot = True"
| "is_atom (RSet ng items) = True"
| "is_atom r = False"

fun atom_ok :: "rflags \<Rightarrow> regex \<Rightarrow> char \<Rightarrow> bool" where
  "atom_ok fl (RChar a) c = char_eq fl a c"
| "atom_ok fl RDot c = (dotAll fl \<or> \<not> isLineTerminator c)"
| "atom_ok fl (RSet ng items) c = (set_mem fl items c \<noteq> ng)"
| "atom_ok fl r c = False"

lemma rmatch_atom:
  "is_atom x \<Longrightarrow>
     rmatch fl x (pv, s, cp)
       = (case s of [] \<Rightarrow> [] | c # cs \<Rightarrow> if atom_ok fl x c then [(Some c, cs, cp)] else [])"
  by (cases x) (auto split: list.splits)

lemma groups_of_atom: "is_atom x \<Longrightarrow> groups_of x = []"
  by (cases x) auto

lemma has_lang_atom: "is_atom x \<Longrightarrow> has_lang fl x (\<lambda>t. \<exists>c. t = [c] \<and> atom_ok fl x c)"
  by (auto simp: has_lang_def ends_def rmatch_atom split: list.splits)

lemma ends_star:
  assumes x: "is_atom x"
  shows "ends fl (RRep 0 None True x) (pv, s, cp)
           = {R. \<exists>t. s = t @ R \<and> (\<forall>c \<in> set t. atom_ok fl x c)}"
proof (induction s arbitrary: pv)
  case Nil
  from x show ?case
    by (subst rmatch_RRep [THEN arg_cong, of "\<lambda>l. (fst \<circ> snd) ` set l", folded ends_def])
       (simp add: rmatch_atom)
next
  case (Cons c cs)
  show ?case
  proof (cases "atom_ok fl x c")
    case True
    have "ends fl (RRep 0 None True x) (pv, c # cs, cp)
            = ends fl (RRep 0 None True x) (Some c, cs, cp) \<union> {c # cs}"
      using x True
      by (subst ends_def, subst rmatch_RRep) (simp add: rmatch_atom groups_of_atom ends_def)
    also have "\<dots> = {R. \<exists>t. c # cs = t @ R \<and> (\<forall>c \<in> set t. atom_ok fl x c)}"
      using True by (auto simp: Cons.IH Cons_eq_append_conv)
    finally show ?thesis .
  next
    case False
    have "ends fl (RRep 0 None True x) (pv, c # cs, cp) = {c # cs}"
      using x False
      by (subst ends_def, subst rmatch_RRep) (simp add: rmatch_atom groups_of_atom)
    also have "\<dots> = {R. \<exists>t. c # cs = t @ R \<and> (\<forall>c \<in> set t. atom_ok fl x c)}"
      using False by (auto simp: Cons_eq_append_conv)
    finally show ?thesis .
  qed
qed

lemma has_lang_star:
  "is_atom x \<Longrightarrow> has_lang fl (RRep 0 None True x) (\<lambda>t. \<forall>c \<in> set t. atom_ok fl x c)"
  by (simp add: has_lang_def ends_star)



lemma rmatch_mk_seq_Cons:
  "rmatch fl (mk_seq (r # rs)) st = concat (map (rmatch fl (mk_seq rs)) (rmatch fl r st))"
proof (cases rs)
  case Nil
  have "rmatch fl REmpty = (\<lambda>st. [st])" by (rule ext) simp
  with Nil show ?thesis by simp
next
  case (Cons r' rs')
  then show ?thesis by simp
qed

lemma concat_map_concat_map:
  "concat (map f (concat (map g xs))) = concat (map (\<lambda>x. concat (map f (g x))) xs)"
  by (induction xs) simp_all

lemma rmatch_mk_seq_append:
  "rmatch fl (mk_seq (rs @ ts)) st = concat (map (rmatch fl (mk_seq ts)) (rmatch fl (mk_seq rs) st))"
proof (induction rs arbitrary: st)
  case Nil
  show ?case by simp
next
  case (Cons r rs)
  have "rmatch fl (mk_seq ((r # rs) @ ts)) st
          = concat (map (rmatch fl (mk_seq (rs @ ts))) (rmatch fl r st))"
    by (simp add: rmatch_mk_seq_Cons)
  also have "\<dots> = concat (map (\<lambda>st'. concat (map (rmatch fl (mk_seq ts)) (rmatch fl (mk_seq rs) st')))
                       (rmatch fl r st))"
    using Cons.IH by (simp cong: map_cong)
  also have "\<dots> = concat (map (rmatch fl (mk_seq ts)) (rmatch fl (mk_seq (r # rs)) st))"
    by (simp add: rmatch_mk_seq_Cons concat_map_concat_map)
  finally show ?case .
qed

lemma rmatch_mk_alt:
  "rs \<noteq> [] \<Longrightarrow> rmatch fl (mk_alt rs) st = concat (map (\<lambda>r. rmatch fl r st) rs)"
  by (induction rs rule: mk_alt.induct) simp_all

text \<open>The languages of the terms of a sequence, one after the other.\<close>

fun seq_lang :: "(string \<Rightarrow> bool) list \<Rightarrow> string \<Rightarrow> bool" where
  "seq_lang [] t = (t = [])"
| "seq_lang (L # Ls) t = (\<exists>t1 t2. t = t1 @ t2 \<and> L t1 \<and> seq_lang Ls t2)"

lemma seq_lang_ConsI: "L t1 \<Longrightarrow> seq_lang Ls t2 \<Longrightarrow> seq_lang (L # Ls) (t1 @ t2)"
  by auto

lemma has_lang_mk_seq:
  "list_all2 (has_lang fl) rs Ls \<Longrightarrow> has_lang fl (mk_seq rs) (seq_lang Ls)"
proof (induction rs Ls rule: list_all2_induct)
  case Nil
  show ?case using has_lang_REmpty [of fl] by (simp add: has_lang_def)
next
  case (Cons r rs L Ls)
  show ?case
  proof (cases rs)
    case Nil
    with Cons have "Ls = []" by simp
    with Nil Cons.hyps(1) show ?thesis by (simp add: has_lang_def)
  next
    case (Cons r' rs')
    from has_lang_RSeq [OF Cons.hyps(1) Cons.IH] Cons show ?thesis
      by (simp add: has_lang_def)
  qed
qed

text \<open>\<^const>\<open>search\<close> finds a match iff there is one from some position.\<close>

lemma search_None:
  "search fl r pv s = None
     \<longleftrightarrow> (\<forall>i \<le> length s. rmatch fl r (if i = 0 then pv else Some (s ! (i - 1)), drop i s, []) = [])"
proof (induction s arbitrary: pv)
  case Nil
  show ?case by (subst search.simps) (simp split: list.splits)
next
  case (Cons c cs)
  have "(\<forall>i \<le> length (c # cs). rmatch fl r (if i = 0 then pv else Some ((c # cs) ! (i - 1)), drop i (c # cs), []) = [])
          \<longleftrightarrow> rmatch fl r (pv, c # cs, []) = []
              \<and> (\<forall>i \<le> length cs. rmatch fl r (if i = 0 then Some c else Some (cs ! (i - 1)), drop i cs, []) = [])"
    (is "?A \<longleftrightarrow> ?B \<and> ?C")
  proof (intro iffI conjI allI impI)
    assume a: ?A
    from a [rule_format, of 0] show ?B by simp
    fix i assume "i \<le> length cs"
    with a [rule_format, of "Suc i"] show "rmatch fl r (if i = 0 then Some c else Some (cs ! (i - 1)), drop i cs, []) = []"
      by (cases i) simp_all
  next
    fix i assume bc: "?B \<and> ?C" and i: "i \<le> length (c # cs)"
    show "rmatch fl r (if i = 0 then pv else Some ((c # cs) ! (i - 1)), drop i (c # cs), []) = []"
    proof (cases i)
      case 0
      with bc show ?thesis by simp
    next
      case (Suc j)
      with i bc [THEN conjunct2, rule_format, of j] show ?thesis
        by (cases j) simp_all
    qed
  qed
  note eq = this
  have s: "search fl r pv (c # cs) = None
             \<longleftrightarrow> rmatch fl r (pv, c # cs, []) = [] \<and> search fl r (Some c) cs = None"
    by (subst search.simps) (simp split: list.splits option.splits)
  show ?case by (simp only: s Cons.IH eq)
qed

lemma RegExp_test_search:
  "\<not> global (flags re) \<Longrightarrow> \<not> sticky (flags re) \<Longrightarrow>
     fst (RegExp_test re s 0) = (search (flags re) (pattern re) None s \<noteq> None)"
  by (auto simp: RegExp_test_def RegExp_exec_def Let_def prev_char_def split: option.splits prod.splits)

section \<open>Bodies with a string parameter\<close>

lemma toUpperCase_cases:
  "toUpperCase c = c \<or> in_range CHR ''A'' CHR ''Z'' (toUpperCase c)
     \<or> in_range CHR 0xC0 CHR 0xDE (toUpperCase c)"
  by (auto simp: toUpperCase_def in_range_def)

lemma toLowerCase_cases:
  "toLowerCase c = c \<or> in_range CHR ''a'' CHR ''z'' (toLowerCase c)
     \<or> in_range CHR 0xE0 CHR 0xFE (toLowerCase c)"
  by (auto simp: toLowerCase_def in_range_def)

text \<open>A character that is not a letter is its own canonical form, and of no other
  character.\<close>

definition caseless :: "char \<Rightarrow> bool" where
  "caseless q = (\<not> in_range CHR ''A'' CHR ''Z'' q \<and> \<not> in_range CHR 0xC0 CHR 0xDE q
     \<and> \<not> in_range CHR ''a'' CHR ''z'' q \<and> \<not> in_range CHR 0xE0 CHR 0xFE q)"

lemma caseless_upper: "caseless q \<Longrightarrow> toUpperCase c = q \<longleftrightarrow> c = q"
  using toUpperCase_cases [of c] by (auto simp: caseless_def toUpperCase_def)

lemma caseless_lower: "caseless q \<Longrightarrow> toLowerCase c = q \<longleftrightarrow> c = q"
  using toLowerCase_cases [of c] by (auto simp: caseless_def toLowerCase_def)

lemma char_eq_caseless: "caseless q \<Longrightarrow> char_eq fl q c = (c = q)"
  using caseless_upper [of q c] caseless_upper [of q q]
  by (auto simp: char_eq_def)

lemma set_mem_caseless: "caseless q \<Longrightarrow> set_mem fl [CChar q] c = (c = q)"
  using caseless_upper [of q c] caseless_lower [of q c]
  by (auto simp: set_mem_def)

lemma caseless_quotes: "caseless DQ" "caseless SQ" "caseless BQ"
  by (simp_all add: caseless_def in_range_def)

lemma caseless_ws: "isWhiteSpace c \<Longrightarrow> caseless c"
  by (auto simp: isWhiteSpace_def caseless_def in_range_def)


lemma set_mem_not_ws: "set_mem fl [CNotClass Space] c = (\<not> isWhiteSpace c)"
  using caseless_ws [of c] caseless_upper [of c c] caseless_lower [of c c]
  by (auto simp: set_mem_def)


text \<open>Occurrences of \<open>k\<close> and of \<open>u\<close> in a text never overlap.\<close>

definition comparable :: "'a list \<Rightarrow> 'a list \<Rightarrow> bool" where
  "comparable a b = (prefix a b \<or> prefix b a)"

definition apart :: "'a list \<Rightarrow> 'a list \<Rightarrow> bool" where
  "apart k u =
     (list_all (\<lambda>k2. k2 = [] \<or> \<not> comparable k2 u) (suffixes k)
      \<and> list_all (\<lambda>u2. u2 = [] \<or> \<not> comparable k u2) (suffixes u))"

lemma apart_disjoint:
  assumes "k \<noteq> []" "u \<noteq> []" "set k \<inter> set u = {}"
  shows "apart k u"
proof -
  have "\<not> comparable a b" if "a \<noteq> []" "b \<noteq> []" "set a \<subseteq> set k" "set b \<subseteq> set u" for a b
  proof
    assume "comparable a b"
    with that(1,2) have "hd a = hd b"
      by (cases a; cases b) (auto simp: comparable_def)
    moreover from that have "hd a \<in> set k" "hd b \<in> set u" by auto
    ultimately show False using assms(3) by auto
  qed
  note nc = this
  show ?thesis
    unfolding apart_def list_all_iff
  proof (intro conjI ballI)
    fix k2 assume "k2 \<in> set (suffixes k)"
    then have "set k2 \<subseteq> set k" by (auto simp: in_set_suffixes dest: set_mono_suffix)
    with nc [of k2 u] assms(2) show "k2 = [] \<or> \<not> comparable k2 u" by auto
  next
    fix u2 assume "u2 \<in> set (suffixes u)"
    then have "set u2 \<subseteq> set u" by (auto simp: in_set_suffixes dest: set_mono_suffix)
    with nc [of k u2] assms(1) show "u2 = [] \<or> \<not> comparable k u2" by auto
  qed
qed

lemma prefix_comparable: "prefix a (b @ Y) \<Longrightarrow> comparable a b"
  by (auto simp: comparable_def prefix_append)

lemma apart_nowhere: "apart k u \<Longrightarrow> suffix u2 u \<Longrightarrow> nowhere k u2 Y"
proof (induction u2)
  case Nil
  show ?case by simp
next
  case (Cons c cs)
  from Cons.prems have "\<not> comparable k (c # cs)"
    by (auto simp: apart_def list_all_iff in_set_suffixes)
  with prefix_comparable [of k "c # cs" Y] have "\<not> prefix k (c # cs @ Y)" by auto
  moreover from Cons.prems(2) have "suffix cs u" by (rule suffix_ConsD)
  ultimately show ?case using Cons.IH Cons.prems(1) by simp
qed

lemma replace_all_append:
  assumes "\<And>k2. k2 \<noteq> [] \<Longrightarrow> suffix k2 k \<Longrightarrow> k2 \<noteq> k \<Longrightarrow> \<not> prefix k2 R"
  shows "replace_all k v (X @ R) = replace_all k v X @ replace_all k v R"
  using assms
proof (induction k v X rule: replace_all.induct)
  case (1 k v)
  show ?case by simp
next
  case (2 k v c cs)
  note ns = "2.prems"
  show ?case
  proof (cases "prefix k (c # cs)")
    case True
    then have l: "length k - 1 \<le> length cs"
      by (auto dest: prefix_length_le)
    then have d: "drop (length k - 1) (cs @ R) = drop (length k - 1) cs @ R" by simp
    from True have "prefix k ((c # cs) @ R)" by (rule prefix_prefix)
    then have "replace_all k v ((c # cs) @ R) = v @ replace_all k v (drop (length k - 1) (cs @ R))"
      by simp
    also have "\<dots> = v @ replace_all k v (drop (length k - 1) cs) @ replace_all k v R"
    proof -
      from True ns
      have "replace_all k v (drop (length k - 1) cs @ R)
              = replace_all k v (drop (length k - 1) cs) @ replace_all k v R"
        by (rule "2.IH"(1))
      then show ?thesis by (simp only: d)
    qed
    also have "\<dots> = replace_all k v (c # cs) @ replace_all k v R"
      using True by simp
    finally show ?thesis .
  next
    case False
    have "\<not> prefix k ((c # cs) @ R)"
    proof
      assume "prefix k ((c # cs) @ R)"
      then have "prefix k (c # cs) \<or> (\<exists>us. k = (c # cs) @ us \<and> prefix us R)"
        by (simp only: prefix_append)
      with False obtain k2 where k: "k = (c # cs) @ k2" and p: "prefix k2 R" by blast
      from k False have "k2 \<noteq> []" by (cases k2) simp_all
      moreover from k have "suffix k2 k" by (simp only: suffix_def) blast
      moreover from k have "k2 \<noteq> k" by (simp del: append_Cons)
      ultimately show False using ns p by blast
    qed
    moreover from False ns have "replace_all k v (cs @ R) = replace_all k v cs @ replace_all k v R"
      by (rule "2.IH"(2))
    ultimately show ?thesis using False by simp
  qed
qed

lemma replace_all_apart:
  assumes "apart k u"
  shows "replace_all k v (X @ u @ Y) = replace_all k v X @ u @ replace_all k v Y"
proof -
  have "\<not> prefix k2 (u @ Y)" if "k2 \<noteq> []" "suffix k2 k" for k2
    using that assms prefix_comparable [of k2 u Y]
    by (auto simp: apart_def list_all_iff in_set_suffixes)
  then have "replace_all k v (X @ u @ Y) = replace_all k v X @ replace_all k v (u @ Y)"
    by (intro replace_all_append) auto
  with apart_nowhere [OF assms suffix_order.refl, of Y] show ?thesis
    by (simp add: replace_all_skip)
qed

lemma sublist_replace_all_apart:
  assumes "apart k u" "sublist u s"
  shows "sublist u (replace_all k v s)"
proof -
  from assms(2) obtain X Y where "s = X @ u @ Y" by (auto simp: sublist_def)
  with replace_all_apart [OF assms(1), of v X Y] show ?thesis
    by (simp add: sublist_appendI)
qed

lemma sublist_replace_all:
  "k \<noteq> [] \<Longrightarrow> sublist k s \<Longrightarrow> sublist v (replace_all k v s)"
proof (induction k v s rule: replace_all.induct)
  case (1 k v)
  then show ?case by simp
next
  case (2 k v c cs)
  show ?case
  proof (cases "prefix k (c # cs)")
    case True
    then show ?thesis by (simp add: sublist_append)
  next
    case False
    with 2(4) have "sublist k cs" by (simp add: sublist_Cons_right)
    with False 2(2,3) show ?thesis by (simp add: sublist_Cons_right)
  qed
qed

lemma sublist_dropWhile_keep:
  assumes "k \<noteq> []" "\<not> P (hd k)" "sublist k s"
  shows "sublist k (dropWhile P s)"
proof -
  from assms(3) obtain X Y where s: "s = X @ k @ Y" by (auto simp: sublist_def)
  from assms(1,2) have "\<exists>X'. dropWhile P (X @ k @ Y) = X' @ k @ Y"
  proof (induction X)
    case Nil
    then have "dropWhile P (k @ Y) = k @ Y" by (cases k) auto
    then show ?case by auto
  next
    case (Cons x X)
    then show ?case by (cases "P x") (auto intro: exI [of _ "x # X"])
  qed
  with s show ?thesis by (auto simp: sublist_def)
qed

lemma sublist_trim:
  assumes "k \<noteq> []" "\<not> isWhiteSpace (hd k)" "\<not> isWhiteSpace (last k)" "sublist k s"
  shows "sublist k (trim s)"
proof -
  from assms have "sublist k (dropWhile isWhiteSpace s)" by (intro sublist_dropWhile_keep)
  then have "sublist (rev k) (rev (dropWhile isWhiteSpace s))" by simp
  with assms have "sublist (rev k) (dropWhile isWhiteSpace (rev (dropWhile isWhiteSpace s)))"
    by (intro sublist_dropWhile_keep) (simp_all add: hd_rev)
  then have "sublist (rev (rev k)) (rev (dropWhile isWhiteSpace (rev (dropWhile isWhiteSpace s))))"
    by (simp only: sublist_rev)
  then show ?thesis by (simp add: trim_def)
qed

lemma apart_keys:
  "apart ''{int}'' ''{string}''" "apart ''{float}'' ''{string}''" "apart ''{word}'' ''{string}''"
  by (simp_all add: apart_def comparable_def)

lemma apart_string_group:
  "apart ''{bigint}'' string_group" "apart ''{byte}'' string_group" "apart ''{short}'' string_group"
  "apart ''{double}'' string_group" "apart ''{biginteger}'' string_group"
  "apart ''{uuid}'' string_group" "apart ''{any}'' string_group"
  by (rule apart_disjoint; simp add: string_group_def)+

lemma sublist_substitute:
  assumes "sublist ''{string}'' s"
  shows "sublist string_group (substitute' s)"
proof -
  let ?s3 = "replace_all ''{word}'' word_group
              (replace_all ''{float}'' float_group (replace_all ''{int}'' int_group s))"
  from assms have "sublist ''{string}'' ?s3"
    by (intro sublist_replace_all_apart apart_keys)
  then have "sublist string_group (replace_all ''{string}'' string_group ?s3)"
    by (intro sublist_replace_all) simp_all
  then show ?thesis
    unfolding substitute'_def param_map_def
    by (simp add: sublist_replace_all_apart apart_string_group)
qed

lemma sublist_mapI:
  assumes "sublist xs ys"
  shows "sublist (map f xs) (map f ys)"
proof -
  from assms obtain X Y where "ys = X @ xs @ Y" by (auto simp: sublist_def)
  then show ?thesis by (simp add: sublist_appendI)
qed

lemma apart_units:
  "apart (map ULit word_group) (map ULit string_group)"
  "apart (map ULit any_group) [UString]"
  by (simp_all add: apart_def comparable_def word_group_def string_group_def any_group_def)

lemma in_set_cws: "u \<in> set us \<Longrightarrow> \<not> is_ws_unit u \<Longrightarrow> u \<in> set (cws us)"
proof (induction us rule: cws.induct)
  case 1
  then show ?case by simp
next
  case (2 v vs)
  show ?case
  proof (cases "is_ws_unit v")
    case True
    with 2(3,4) have "u \<in> set vs" by auto
    with 2(4) have "u \<in> set (dropWhile is_ws_unit vs)"
      by (induction vs) auto
    with True 2(1,4) show ?thesis by simp
  next
    case False
    with 2(2,3,4) show ?thesis by auto
  qed
qed

lemma UString_final_units:
  assumes "sublist ''{string}'' e"
  shows "UString \<in> set (final_units e)"
proof -
  from assms have "sublist ''{string}'' (trim e)"
    by (intro sublist_trim) (simp_all add: isWhiteSpace_def)
  then have "sublist (map ULit string_group) (map ULit (substitute' (trim e)))"
    by (intro sublist_mapI sublist_substitute)
  then have "sublist [UString] (restore (map ULit (substitute' (trim e))))"
    unfolding restore_def
    by (intro sublist_replace_all_apart apart_units sublist_replace_all)
       (simp add: string_group_def)
  then have "UString \<in> set (restore (map ULit (substitute' (trim e))))"
    by (auto simp: sublist_def)
  then show ?thesis by (simp add: final_units_def in_set_cws)
qed


section \<open>Bodies without a string parameter\<close>

text \<open>Without the alternation of the string parameter the pattern is one sequence,
  from \<^verbatim>\<open>^\<close> to \<^verbatim>\<open>$\<close>.\<close>

lemma punits_no_string:
  "UString \<notin> set us \<Longrightarrow> \<exists>ts n'. punits us (alts, terms, n) = (alts, terms @ ts, n')"
proof (induction us arbitrary: terms n)
  case Nil
  show ?case by simp
next
  case (Cons u us)
  then have u: "u \<noteq> UString" and us: "UString \<notin> set us" by auto
  from u obtain t m where p: "pstep u (alts, terms, n) = (alts, terms @ [t], m)"
    by (cases u) auto
  from Cons.IH [OF us, of "terms @ [t]" m] p show ?case by auto
qed

lemma compiled_pattern_no_string:
  assumes "UString \<notin> set (final_units e)"
  shows "\<exists>ts. compiled_pattern e = mk_seq ((RBol # ts) @ [REol])"
proof -
  from punits_no_string [OF assms, of "[]" "[RBol]" 0] obtain ts n' where
    "punits (final_units e) ([], [RBol], 0) = ([], [RBol] @ ts, n')" by blast
  then show ?thesis by (auto simp: compiled_pattern_def close_group_def)
qed

lemma rmatch_REol_end:
  "\<not> multiline fl \<Longrightarrow> st \<in> set (rmatch fl (mk_seq (rs @ [REol])) st0) \<Longrightarrow> fst (snd st) = []"
  by (auto simp: rmatch_mk_seq_append split: list.splits if_splits)

lemma rmatch_RBol_start:
  "\<not> multiline fl \<Longrightarrow> rmatch fl (mk_seq (RBol # rs)) (Some c, s, cp) = []"
  by (simp add: rmatch_mk_seq_Cons)

lemma search_anchored:
  assumes "\<not> multiline fl"
  shows "search fl (mk_seq ((RBol # ts) @ [REol])) None s \<noteq> None
           \<longleftrightarrow> (\<exists>st \<in> set (rmatch fl (mk_seq ((RBol # ts) @ [REol])) (None, s, [])). fst (snd st) = [])"
    (is "?l \<longleftrightarrow> ?r")
proof
  assume ?l
  then obtain i where i: "i \<le> length s"
    and m: "rmatch fl (mk_seq ((RBol # ts) @ [REol])) (if i = 0 then None else Some (s ! (i - 1)), drop i s, []) \<noteq> []"
    by (auto simp: search_None)
  have "i = 0"
  proof (rule ccontr)
    assume "i \<noteq> 0"
    with m rmatch_RBol_start [OF assms, of "ts @ [REol]" "s ! (i - 1)" "drop i s" "[]"]
    show False by simp
  qed
  with m obtain st where st: "st \<in> set (rmatch fl (mk_seq ((RBol # ts) @ [REol])) (None, s, []))"
    by (cases "rmatch fl (mk_seq ((RBol # ts) @ [REol])) (None, s, [])") auto
  with rmatch_REol_end [OF assms st] show ?r by blast
next
  assume ?r
  then have "rmatch fl (mk_seq ((RBol # ts) @ [REol])) (if (0::nat) = 0 then None else Some (s ! (0 - 1)), drop 0 s, []) \<noteq> []"
    by auto
  then have "\<not> (\<forall>i \<le> length s. rmatch fl (mk_seq ((RBol # ts) @ [REol]))
                 (if i = 0 then None else Some (s ! (i - 1)), drop i s, []) = [])"
    by blast
  with search_None [of fl "mk_seq ((RBol # ts) @ [REol])" None s] show ?l by blast
qed


text \<open>A text that is not in \<open>s\<close> and shares no character with \<open>v\<close> is not in \<open>s\<close> after
  the replacement either.\<close>

lemma prefix_replace_all:
  "prefix u (replace_all k v s) \<Longrightarrow> set u \<inter> set v = {} \<Longrightarrow> v \<noteq> [] \<Longrightarrow> prefix u s"
proof (induction k v s arbitrary: u rule: replace_all.induct)
  case (1 k v)
  then show ?case by simp
next
  case (2 k v c cs)
  show ?case
  proof (cases u)
    case Nil
    then show ?thesis by simp
  next
    case (Cons a u')
    show ?thesis
    proof (cases "prefix k (c # cs)")
      case True
      with "2.prems"(1) Cons have "prefix (a # u') (v @ replace_all k v (drop (length k - 1) cs))"
        by simp
      with "2.prems"(3) have "a = hd v" by (cases v) auto
      with "2.prems"(2,3) Cons show ?thesis by auto
    next
      case False
      with "2.prems"(1) Cons have a: "a = c" and p: "prefix u' (replace_all k v cs)" by auto
      from "2.prems"(2) Cons have "set u' \<inter> set v = {}" by auto
      from "2.IH"(2) [OF False p this "2.prems"(3)] a Cons show ?thesis by simp
    qed
  qed
qed

lemma sublist_replace_all_old:
  "sublist u (replace_all k v s) \<Longrightarrow> set u \<inter> set v = {} \<Longrightarrow> u \<noteq> [] \<Longrightarrow> v \<noteq> [] \<Longrightarrow>
     sublist u s"
proof (induction k v s rule: replace_all.induct)
  case (1 k v)
  then show ?case by simp
next
  case (2 k v c cs)
  show ?case
  proof (cases "prefix k (c # cs)")
    case True
    let ?R = "replace_all k v (drop (length k - 1) cs)"
    from True "2.prems"(1) have "sublist u (v @ ?R)" by simp
    then consider "sublist u v" | "sublist u ?R"
      | u1 u2 where "u = u1 @ u2" "suffix u1 v" "prefix u2 ?R"
      by (auto simp: sublist_append)
    then have "sublist u ?R"
    proof cases
      case 1
      then have "set u \<subseteq> set v" by (rule set_mono_sublist)
      with "2.prems"(2,3) show ?thesis by (cases u) auto
    next
      case 2
      then show ?thesis .
    next
      case 3
      from 3(2) have "set u1 \<subseteq> set v" by (rule set_mono_suffix)
      with "2.prems"(2) 3(1) have "u1 = []" by (cases u1) auto
      with 3 show ?thesis by auto
    qed
    from "2.IH"(1) [OF True this "2.prems"(2,3,4)]
    have "sublist u (drop (length k - 1) cs)" .
    then have "sublist u cs"
      by (rule sublist_order.order.trans) (rule sublist_drop)
    then show ?thesis by (simp add: sublist_Cons_right)
  next
    case False
    with "2.prems"(1) have "prefix u (c # replace_all k v cs) \<or> sublist u (replace_all k v cs)"
      by (simp add: sublist_Cons_right)
    then show ?thesis
    proof
      assume "prefix u (c # replace_all k v cs)"
      with False have "prefix u (replace_all k v (c # cs))" by simp
      from prefix_replace_all [OF this "2.prems"(2,4)] show ?thesis by auto
    next
      assume "sublist u (replace_all k v cs)"
      from "2.IH"(2) [OF False this "2.prems"(2,3,4)] show ?thesis
        by (simp add: sublist_Cons_right)
    qed
  qed
qed

lemma replace_all_absent: "\<not> sublist k s \<Longrightarrow> replace_all k v s = s"
proof (induction k v s rule: replace_all.induct)
  case (1 k v)
  show ?case by simp
next
  case (2 k v c cs)
  from "2.prems" have np: "\<not> prefix k (c # cs)" and ns: "\<not> sublist k cs"
    by (auto simp: sublist_Cons_right)
  from "2.IH"(2) [OF np ns] np show ?case by simp
qed

lemma set_replace_all: "set (replace_all k v s) \<subseteq> set s \<union> set v"
proof (induction k v s rule: replace_all.induct)
  case (1 k v)
  show ?case by simp
next
  case (2 k v c cs)
  show ?case
  proof (cases "prefix k (c # cs)")
    case True
    from "2.IH"(1) [OF True] set_drop_subset [of "length k - 1" cs] True show ?thesis by auto
  next
    case False
    from "2.IH"(2) [OF False] False show ?thesis by auto
  qed
qed

lemma set_trim: "set (trim s) \<subseteq> set s"
  using set_dropWhileD [of _ isWhiteSpace "rev (dropWhile isWhiteSpace s)"]
        set_dropWhileD [of _ isWhiteSpace s]
  by (auto simp: trim_def)

lemma sublist_trim_self: "sublist (trim s) s"
proof -
  have "suffix (dropWhile isWhiteSpace s) s" by (rule suffix_dropWhile)
  moreover have "prefix (trim s) (dropWhile isWhiteSpace s)"
    using suffix_dropWhile [of isWhiteSpace "rev (dropWhile isWhiteSpace s)"]
    by (simp add: trim_def suffix_to_prefix)
  ultimately show ?thesis
    by (blast intro: sublist_order.order.trans prefix_imp_sublist suffix_imp_sublist)
qed


lemma notin_replace_all: "x \<notin> set s \<Longrightarrow> x \<notin> set v \<Longrightarrow> x \<notin> set (replace_all k v s)"
  using set_replace_all [of k v s] by auto

lemma substitute_no_string:
  assumes "\<not> sublist ''{string}'' s" and "BQ \<notin> set s"
  shows "BQ \<notin> set (substitute' s)"
proof -
  let ?s3 = "replace_all ''{word}'' word_group
              (replace_all ''{float}'' float_group (replace_all ''{int}'' int_group s))"
  have "\<not> sublist ''{string}'' ?s3"
    using assms(1)
    by (auto dest!: sublist_replace_all_old simp: int_group_def float_group_def word_group_def)
  then have r: "replace_all ''{string}'' string_group ?s3 = ?s3"
    by (rule replace_all_absent)
  have g: "BQ \<notin> set int_group" "BQ \<notin> set float_group" "BQ \<notin> set word_group"
    "BQ \<notin> set uuid_group" "BQ \<notin> set any_group"
    by (simp_all add: int_group_def float_group_def word_group_def uuid_group_def any_group_def)
  from assms(2) have b3: "BQ \<notin> set ?s3"
    by (intro notin_replace_all g)
  have "substitute' s
          = replace_all ''{any}'' any_group
             (replace_all ''{uuid}'' uuid_group
               (replace_all ''{biginteger}'' int_group
                 (replace_all ''{double}'' float_group
                   (replace_all ''{short}'' int_group
                     (replace_all ''{byte}'' int_group
                       (replace_all ''{bigint}'' int_group ?s3))))))"
    unfolding substitute'_def param_map_def foldl_Cons foldl_Nil prod.case r ..
  also from assms(2) have "BQ \<notin> set \<dots>"
    by (intro notin_replace_all g)
  finally show ?thesis .
qed

lemma set_cws: "set (cws us) \<subseteq> insert UWs (set us)"
proof (induction us rule: cws.induct)
  case 1
  show ?case by simp
next
  case (2 u us)
  show ?case
  proof (cases "is_ws_unit u")
    case True
    from "2.IH"(1) [OF True] set_dropWhileD [of _ is_ws_unit us] True show ?thesis by auto
  next
    case False
    from "2.IH"(2) [OF False] False show ?thesis by auto
  qed
qed

lemma final_units_no_string:
  assumes "\<not> sublist ''{string}'' e" and "BQ \<notin> set e"
  shows "UString \<notin> set (final_units e)"
proof -
  let ?us = "map ULit (substitute' (trim e))"
  let ?w = "replace_all (map ULit word_group) [UWord] ?us"
  from assms(1) sublist_trim_self [of e] have "\<not> sublist ''{string}'' (trim e)"
    by (blast intro: sublist_order.order.trans)
  moreover from assms(2) set_trim [of e] have "BQ \<notin> set (trim e)" by auto
  ultimately have "BQ \<notin> set (substitute' (trim e))" by (rule substitute_no_string)
  then have b: "ULit BQ \<notin> set ?us" and s: "UString \<notin> set ?us" by auto
  from b have bw: "ULit BQ \<notin> set ?w" by (intro notin_replace_all) simp_all
  from s have sw: "UString \<notin> set ?w" by (intro notin_replace_all) simp_all
  have "\<not> sublist (map ULit string_group) ?w"
  proof
    assume "sublist (map ULit string_group) ?w"
    then have "set (map ULit string_group) \<subseteq> set ?w" by (rule set_mono_sublist)
    with bw show False by (auto simp: string_group_def)
  qed
  then have "replace_all (map ULit string_group) [UString] ?w = ?w" by (rule replace_all_absent)
  then have "restore ?us = replace_all (map ULit any_group) [UAny] ?w"
    by (simp only: restore_def)
  moreover from s have "UString \<notin> set (replace_all (map ULit any_group) [UAny] ?w)"
    by (intro notin_replace_all) simp_all
  ultimately have "UString \<notin> set (restore ?us)" by simp
  with set_cws [of "restore ?us"] show ?thesis by (auto simp: final_units_def)
qed

section \<open>The alternatives of a string parameter\<close>

lemma punits_alts_mono: "set alts \<subseteq> set (fst (punits us (alts, terms, n)))"
proof (induction us arbitrary: alts terms n)
  case Nil
  show ?case by simp
next
  case (Cons u us)
  obtain a t m where p: "pstep u (alts, terms, n) = (a, t, m)"
    by (cases "pstep u (alts, terms, n)") auto
  then have "set alts \<subseteq> set a" by (cases u) auto
  with Cons.IH [of a t m] p show ?case by auto
qed

lemma punits_string:
  "UString \<in> set us \<Longrightarrow> \<exists>k. mk_seq (quoted SQ k) \<in> set (fst (punits us (alts, terms, n)))"
proof (induction us arbitrary: alts terms n)
  case Nil
  then show ?case by simp
next
  case (Cons u us)
  show ?case
  proof (cases "u = UString")
    case True
    have "mk_seq (quoted SQ (Suc (Suc n)))
            \<in> set (alts @ [mk_seq (terms @ quoted DQ (Suc n)), mk_seq (quoted SQ (Suc (Suc n)))])"
      by simp
    with punits_alts_mono
           [of "alts @ [mk_seq (terms @ quoted DQ (Suc n)), mk_seq (quoted SQ (Suc (Suc n)))]"
               us "quoted BQ (Suc (Suc (Suc n)))" "Suc (Suc (Suc n))"]
         True
    show ?thesis by (intro exI [of _ "Suc (Suc n)"]) auto
  next
    case False
    with Cons.prems have us: "UString \<in> set us" by simp
    obtain a t m where p: "pstep u (alts, terms, n) = (a, t, m)"
      by (cases "pstep u (alts, terms, n)") auto
    from Cons.IH [OF us, of a t m] p show ?thesis by simp
  qed
qed

text \<open>The alternative for a text in single quotes matches such a text wherever it is
  tried.\<close>

lemma quoted_matches:
  assumes "caseless q" and "q \<notin> set m"
  shows "rmatch fl (mk_seq (quoted q k)) (pv, q # m @ q # c, cp) \<noteq> []"
proof -
  let ?Ls = "[\<lambda>t. \<exists>x. t = [x] \<and> atom_ok fl (RChar q) x,
              \<lambda>t. \<forall>x \<in> set t. atom_ok fl (RSet True [CChar q]) x,
              \<lambda>t. \<exists>x. t = [x] \<and> atom_ok fl (RChar q) x]"
  have 1: "has_lang fl (RChar q) (\<lambda>t. \<exists>x. t = [x] \<and> atom_ok fl (RChar q) x)"
    by (rule has_lang_atom) simp
  have 2: "has_lang fl (RGroup k (RRep 0 None True (RSet True [CChar q])))
             (\<lambda>t. \<forall>x \<in> set t. atom_ok fl (RSet True [CChar q]) x)"
    by (intro has_lang_RGroup has_lang_star) simp
  from 1 2 have "list_all2 (has_lang fl) (quoted q k) ?Ls"
    by (simp add: quoted_def del: atom_ok.simps)
  then have "has_lang fl (mk_seq (quoted q k)) (seq_lang ?Ls)" by (rule has_lang_mk_seq)
  moreover have "seq_lang ?Ls (q # m @ [q])"
  proof -
    have "atom_ok fl (RChar q) q" using assms(1) by (simp add: char_eq_caseless)
    moreover have "\<forall>x \<in> set m. atom_ok fl (RSet True [CChar q]) x"
      using assms by (auto simp: set_mem_caseless)
    ultimately have "seq_lang ?Ls ([q] @ m @ [q] @ [])"
      by (intro seq_lang_ConsI) (simp_all del: atom_ok.simps)
    then show ?thesis by simp
  qed
  ultimately have "c \<in> ends fl (mk_seq (quoted q k)) (pv, (q # m @ [q]) @ c, cp)"
    unfolding has_lang_def by blast
  then show ?thesis by (auto simp: ends_def)
qed

lemma string_parameter_search:
  assumes "sublist ''{string}'' e" and "SQ \<notin> set m"
  shows "search i_flags (compiled_pattern e) None (a @ SQ # m @ SQ # c) \<noteq> None"
proof -
  obtain alts terms n where p: "punits (final_units e) ([], [RBol], 0) = (alts, terms, n)"
    by (cases "punits (final_units e) ([], [RBol], 0)") auto
  from punits_string [OF UString_final_units [OF assms(1)], of "[]" "[RBol]" 0] p
  obtain k where k: "mk_seq (quoted SQ k) \<in> set alts" by auto
  let ?s = "a @ SQ # m @ SQ # c"
  let ?pv = "if length a = 0 then None else Some (?s ! (length a - 1))"
  from quoted_matches [OF caseless_quotes(2) assms(2), of i_flags k ?pv c "[]"]
  have "rmatch i_flags (mk_seq (quoted SQ k)) (?pv, SQ # m @ SQ # c, []) \<noteq> []" .
  with k have "rmatch i_flags (mk_alt (alts @ [mk_seq (terms @ [REol])])) (?pv, SQ # m @ SQ # c, []) \<noteq> []"
    by (auto simp: rmatch_mk_alt)
  with p have "rmatch i_flags (compiled_pattern e) (?pv, drop (length a) ?s, []) \<noteq> []"
    by (simp add: compiled_pattern_def close_group_def)
  moreover have "length a \<le> length ?s" by simp
  ultimately have "\<not> (\<forall>i \<le> length ?s. rmatch i_flags (compiled_pattern e)
                       (if i = 0 then None else Some (?s ! (i - 1)), drop i ?s, []) = [])"
    by blast
  with search_None [of i_flags "compiled_pattern e" None ?s] show ?thesis by blast
qed

section \<open>What a compiled expression matches\<close>






































section \<open>White space in an expression body\<close>

















section \<open>The claims\<close>

subsection \<open>Notions of the specification and the inputs of the examples\<close>

text \<open>
  A notion of the specification, for the claims about matching a whole line: the
  pattern has a match that starts at the start of the line and ends at its end.
\<close>

definition accepts_whole_line :: "regexp \<Rightarrow> string \<Rightarrow> bool" where
  "accepts_whole_line re s =
     (\<exists>st \<in> set (rmatch (flags re) (pattern re) (None, s, [])). fst (snd st) = [])"

text \<open>What the branch of the extractor for a regex literal gets from the token \<open>lit\<close>: the
  \<^verbatim>\<open>RegExp\<close> object, or none when \<open>lit\<close> has not the form \<^verbatim>\<open>/body/flags\<close> or
  \<^verbatim>\<open>new RegExp\<close> throws for the body and the flags.\<close>

definition regex_of_literal :: "engine \<Rightarrow> string \<Rightarrow> regexp_object option" where
  "regex_of_literal eng lit =
     (case extractRegexLiteral lit of
        None \<Rightarrow> None
      | Some (body, fs) \<Rightarrow> tryBuildRegExp eng body fs)"

text \<open>Two calls of the extractor on the same input, the second starting with the
  \<^verbatim>\<open>lastIndex\<close> that the first has left in \<^verbatim>\<open>STEP_CALL_RE\<close>.\<close>

definition extract_twice ::
  "engine \<Rightarrow> string \<Rightarrow> string \<Rightarrow> nat \<Rightarrow> error + (step_pattern list \<times> step_pattern list)" where
  "extract_twice eng src f lastIndex =
     (case extractStepPatternsFromSource eng src f lastIndex of
        Inl e \<Rightarrow> Inl e
      | Inr (ps, li) \<Rightarrow>
          (case extractStepPatternsFromSource eng src f li of
             Inl e \<Rightarrow> Inl e
           | Inr (qs, li') \<Rightarrow> Inr (ps, qs)))"

text \<open>What \<^verbatim>\<open>main\<close> computes for one expression pattern and one scenario step: the
  values of \<^verbatim>\<open>used\<close> of the entries that the declaration adds.\<close>

definition expr_used :: "engine \<Rightarrow> string \<Rightarrow> string \<Rightarrow> bool option list" where
  "expr_used eng e step =
     map (\<lambda>p. used (usage_of eng [step] p)) (expr_pattern eng ''a.steps.js'' e)"

text \<open>The step file and the feature file of the end-to-end scenario of the
  specification.\<close>

definition example_steps :: string where
  \<open>example_steps =
     ''Given("I do {int} things", fn)'' @ [CHR 0x0A] @
     ''When(/^I click (.+)$/i, fn)'' @ [CHR 0x0A] @
     ''Then("I navigate to the {word} page", fn)'' @ [CHR 0x0A]\<close>

definition example_feature :: string where
  "example_feature =
     ''Feature: example'' @ [CHR 0x0A] @
     ''  Scenario: one'' @ [CHR 0x0A] @
     ''    Given I do 5 things'' @ [CHR 0x0A] @
     ''    When I click submit'' @ [CHR 0x0A]"

text \<open>A step file with a declaration that is no literal and one that is an expression,
  and a feature file with one step.\<close>

definition witness_steps :: "(string \<times> string) list" where
  \<open>witness_steps =
     [(''a.steps.js'', ''Given(foo, fn)'' @ [CHR 0x0A] @ ''When("I click {word}", fn)'')]\<close>

definition witness_features :: "string list" where
  "witness_features = [''  When I click submit'']"

text \<open>A step file with a regex literal that does not compile, followed by an expression.\<close>

definition malformed_steps :: string where
  \<open>malformed_steps = ''Given(/(/, fn)'' @ [CHR 0x0A] @ ''When("a", fn)''\<close>

text \<open>A step file with a regex literal without anchors and an expression with a string
  parameter, and a feature file with a step for each.\<close>

definition unanchored_steps :: "(string \<times> string) list" where
  \<open>unanchored_steps =
     [(''a.steps.js'', ''When(/click/, fn)'' @ [CHR 0x0A] @ ''Then("see {string}", fn)'')]\<close>

definition unanchored_features :: "string list" where
  "unanchored_features = [''When I click submit'' @ [CHR 0x0A] @ ''Then x '' @ [SQ] @ ''y'' @ [SQ] @ '' z'']"

subsection \<open>Expressions and whole lines\<close>

lemma expr_used_test:
  "expr_used eng e step
     = [Some (search i_flags (compiled_pattern e) None step \<noteq> None)]"
proof -
  have fl: "\<not> global i_flags" "\<not> sticky i_flags"
    by (simp_all add: i_flags_def no_flags_def)
  let ?re = "\<lparr>source = cucumberExprToRegex e, flags = i_flags, pattern = compiled_pattern e\<rparr>"
  have "expr_used eng e step = [Some (fst (some_test eng (Compiled ?re) [step] 0))]"
    by (simp add: expr_used_def expr_pattern_def expression_builds usage_of_def)
  also have "fst (some_test eng (Compiled ?re) [step] 0) = fst (RegExp_test ?re step 0)"
    by (simp only: some_test_0) (simp add: test_def)
  also have "\<dots> = (search i_flags (compiled_pattern e) None step \<noteq> None)"
    using RegExp_test_search [of ?re step] fl by simp
  finally show ?thesis .
qed


text \<open>An expression without a string parameter is used by the steps that its pattern
  matches from the start to the end, and by no other.\<close>

lemma expression_anchored:
  assumes "\<not> sublist ''{string}'' e" and "BQ \<notin> set e"
      and "RegExp_new (cucumberExprToRegex e) ''i'' = Inr re"
  shows "fst (RegExp_test re step 0) = accepts_whole_line re step"
proof -
  from assms(3) have re: "flags re = i_flags" "pattern re = compiled_pattern e"
    by (auto simp: expression_compiles)
  have fl: "\<not> global i_flags" "\<not> sticky i_flags" "\<not> multiline i_flags"
    by (simp_all add: i_flags_def no_flags_def)
  from compiled_pattern_no_string [OF final_units_no_string [OF assms(1,2)]] obtain ts where
    ts: "compiled_pattern e = mk_seq ((RBol # ts) @ [REol])" by blast
  from RegExp_test_search [of re step] re fl
  have "fst (RegExp_test re step 0) = (search i_flags (compiled_pattern e) None step \<noteq> None)"
    by simp
  also have "\<dots> = accepts_whole_line re step"
    unfolding accepts_whole_line_def re ts by (rule search_anchored [OF fl(3)])
  finally show ?thesis .
qed


subsection \<open>Theorems\<close>

text \<open>
  C1 (code bug). The expression \<^verbatim>\<open>I wait for {int} seconds\<close> is compiled to a pattern
  that does not match the step \<^verbatim>\<open>I wait for 42 seconds\<close>: the pattern is declared,
  compiled and reported unused. Of the eleven parameter tokens, an expression with the
  token between literal text matches a step with a valid instance for \<^verbatim>\<open>{word}\<close>,
  \<^verbatim>\<open>{string}\<close> and \<^verbatim>\<open>{any}\<close> only; for the eight tokens whose group contains a
  dash it does not.
\<close>

theorem parameter_tokens_matched:
  \<open>map (\<lambda>(e, step). expr_used eng e step)
     [(''I wait for {int} seconds'', ''I wait for 42 seconds''),
      (''wait {float} s'', ''wait 4.5 s''),
      (''wait {word} s'', ''wait some s''),
      (''wait {string} s'', ''wait "some" s''),
      (''wait {bigint} s'', ''wait 42 s''),
      (''wait {byte} s'', ''wait 42 s''),
      (''wait {short} s'', ''wait 42 s''),
      (''wait {double} s'', ''wait 4.5 s''),
      (''wait {biginteger} s'', ''wait 42 s''),
      (''{uuid}'', ''123e4567-e89b-12d3-a456-426614174000''),
      (''wait {any} s'', ''wait a few s'')]
   = [[Some False], [Some False], [Some True], [Some True], [Some False], [Some False],
      [Some False], [Some False], [Some False], [Some False], [Some True]]\<close>
  by code_simp

text \<open>
  C2 (code bug). The group that the substitution inserts for \<^verbatim>\<open>{int}\<close> is not in the
  compiled pattern: the escaping pass writes the dash of the group as it is, the second
  pass looks for the group with an escaped dash, finds nothing and restores nothing.
\<close>

theorem int_group_not_reinserted:
  "cucumberExprToRegex ''{int}'' = ''^'' @ BS # ''(-'' @ BS # ''?'' @ BS # BS # ''d'' @ BS # ''+'' @ BS # '')$''
   \<and> escape_special int_group = BS # ''(-'' @ BS # ''?'' @ BS # BS # ''d'' @ BS # ''+'' @ BS # '')''
   \<and> escaped int_group = BS # ''('' @ BS # ''-'' @ BS # ''?'' @ BS # BS # ''d'' @ BS # ''+'' @ BS # '')''"
  by code_simp

text \<open>
  C3 (corrected). A declaration whose regex literal gives no \<^verbatim>\<open>RegExp\<close> object (the
  token has not the form \<^verbatim>\<open>/body/flags\<close>, or \<^verbatim>\<open>new RegExp\<close> throws for it) does not
  end the run, and it changes no other pattern; but it is left out of the results
  instead of being listed with usage Unknown: the loop body pushes nothing for it, the
  loop goes on with the list of patterns as it was, the patterns found before stay in
  front, and the patterns after it are those that the rest of the source gives on its
  own.
\<close>

theorem malformed_regex_literal_skipped:
  assumes "RegExp_exec STEP_CALL_RE src lastIndex = (Some m, li)"
      and "capture m 1 = Some m1"
      and "prefix ''/'' (trim m1)"
      and "String_split_re (trim m1) one_space = lit # pieces"
      and "regex_of_literal eng lit = None"
  shows "step_patterns_of eng f m = Inr []
         \<and> extract_loop eng src f patterns lastIndex = extract_loop eng src f patterns li
         \<and> (\<exists>later. extract_loop eng src f [] li = Inr (later, 0)
                    \<and> extract_loop eng src f patterns lastIndex = Inr (patterns @ later, 0))"
proof -
  from assms have s: "step_patterns_of eng f m = Inr []"
    by (auto simp: step_patterns_of_def regex_of_literal_def Let_def split: option.splits)
  with assms(1) have a: "extract_loop eng src f patterns lastIndex = extract_loop eng src f patterns li"
    by (subst extract_loop.simps) simp
  from extract_loop_total [of eng src f "[]" li] obtain later where
    l: "extract_loop eng src f [] li = Inr (later, 0)" by blast
  from extract_loop_prepend [of eng src f patterns "[]" li] l
  have "extract_loop eng src f patterns li = Inr (patterns @ later, 0)" by simp
  with s a l show ?thesis by simp
qed

theorem malformed_regex_literal_skipped_witness:
  "\<forall>eng.
     RegExp_exec STEP_CALL_RE malformed_steps 0
       = (Some \<lparr>index = 0, matched = ''Given(/(/,'', groups = [(1, ''/(/'')]\<rparr>, 10)
     \<and> regex_of_literal eng ''/(/'' = None
     \<and> step_patterns_of eng ''a.steps.js''
          \<lparr>index = 0, matched = ''Given(/(/,'', groups = [(1, ''/(/'')]\<rparr> = Inr []
     \<and> extract_loop eng malformed_steps ''a.steps.js'' [] 0
         = extract_loop eng malformed_steps ''a.steps.js'' [] 10
     \<and> extract_loop eng malformed_steps ''a.steps.js'' [] 0
         = Inr ([\<lparr>pfile = ''a.steps.js'', type = Expr, raw = ''a'',
                   regexp = Some (Compiled \<lparr>source = ''^a$'', flags = i_flags,
                                            pattern = RSeq RBol (RSeq (RChar CHR ''a'') REol)\<rparr>),
                   skipped = False\<rparr>], 0)"
proof
  fix eng
  let ?m = "\<lparr>index = 0, matched = ''Given(/(/,'', groups = [(1, ''/(/'')]\<rparr>"
  have 1: "RegExp_exec STEP_CALL_RE malformed_steps 0 = (Some ?m, 10)" by code_simp
  have 2: "capture ?m 1 = Some ''/(/''" by code_simp
  have 3: "prefix ''/'' (trim ''/(/'')" by code_simp
  have 4: "String_split_re (trim ''/(/'') one_space = ''/(/'' # []" by code_simp
  have 5: "regex_of_literal eng ''/(/'' = None" by code_simp
  have 6: "extract_loop eng malformed_steps ''a.steps.js'' [] 10
             = Inr ([\<lparr>pfile = ''a.steps.js'', type = Expr, raw = ''a'',
                       regexp = Some (Compiled \<lparr>source = ''^a$'', flags = i_flags,
                                                pattern = RSeq RBol (RSeq (RChar CHR ''a'') REol)\<rparr>),
                       skipped = False\<rparr>], 0)"
    by code_simp
  from malformed_regex_literal_skipped [OF 1 2 3 4 5, of "''a.steps.js''" "[]"] 1 5 6
  show "RegExp_exec STEP_CALL_RE malformed_steps 0 = (Some ?m, 10)
     \<and> regex_of_literal eng ''/(/'' = None
     \<and> step_patterns_of eng ''a.steps.js'' ?m = Inr []
     \<and> extract_loop eng malformed_steps ''a.steps.js'' [] 0
         = extract_loop eng malformed_steps ''a.steps.js'' [] 10
     \<and> extract_loop eng malformed_steps ''a.steps.js'' [] 0
         = Inr ([\<lparr>pfile = ''a.steps.js'', type = Expr, raw = ''a'',
                   regexp = Some (Compiled \<lparr>source = ''^a$'', flags = i_flags,
                                            pattern = RSeq RBol (RSeq (RChar CHR ''a'') REol)\<rparr>),
                   skipped = False\<rparr>], 0)"
    by simp
qed

text \<open>
  C3, the claim as stated fails: the step file \<^verbatim>\<open>Given(/(/, fn)\<close>, \<^verbatim>\<open>When("a", fn)\<close>
  declares the regex literal \<^verbatim>\<open>/(/\<close>, which does not compile, and the results have
  an entry for the expression only: none for the literal, neither with usage Unknown nor
  with another.
\<close>

theorem malformed_regex_not_in_results:
  "\<forall>eng. (case main eng [(''a.steps.js'', malformed_steps)] [] of
            Inl e \<Rightarrow> None
          | Inr r \<Rightarrow> Some (map (\<lambda>u. (type (pat u), raw (pat u), used u)) (usage_list r)))
         = Some [(Expr, ''a'', Some False)]"
proof
  fix eng
  show "(case main eng [(''a.steps.js'', malformed_steps)] [] of
            Inl e \<Rightarrow> None
          | Inr r \<Rightarrow> Some (map (\<lambda>u. (type (pat u), raw (pat u), used u)) (usage_list r)))
         = Some [(Expr, ''a'', Some False)]"
    by code_simp
qed

text \<open>
  C4 (code bug). The declaration \<^verbatim>\<open>Given(/^I have (\d+) items$/, () => {})\<close> gives no
  pattern at all: the literal is cut at its first white space to \<^verbatim>\<open>/^I\<close>, which is
  no regex literal. The whole token would give the body and the flags as written, and
  a matcher that accepts \<^verbatim>\<open>I have 3 items\<close> and rejects \<^verbatim>\<open>I have three items\<close>.
\<close>

theorem regex_literal_with_space_dropped:
  "extractStepPatternsFromSource eng (''Given(/^I have ('' @ BS # ''d+) items$/, () => {});'') ''a.steps.js'' 0
     = Inr ([], 0)
   \<and> String_split_re (''/^I have ('' @ BS # ''d+) items$/'') one_space = [''/^I'', ''have'', ''('' @ BS # ''d+)'', ''items$/'']
   \<and> extractRegexLiteral ''/^I'' = None
   \<and> (case extractRegexLiteral (''/^I have ('' @ BS # ''d+) items$/'') of
         None \<Rightarrow> None
       | Some (body, fs) \<Rightarrow>
           map_option (\<lambda>re. (fst (test eng re ''I have 3 items'' 0),
                              fst (test eng re ''I have three items'' 0)))
             (tryBuildRegExp eng body fs)) = Some (True, False)"
  by code_simp

text \<open>
  C5 (corrected). For every pattern with a matcher, \<^verbatim>\<open>used\<close> is true iff \<^verbatim>\<open>test\<close>
  of the matcher succeeds on some scenario step, that is, iff the pattern matches
  somewhere in the step, and false otherwise. The matcher of an expression pattern is
  the pattern compiled from the source that \<^verbatim>\<open>cucumberExprToRegex\<close> returns for the
  body, with the flag \<^verbatim>\<open>i\<close> only; when the body has no \<^verbatim>\<open>{string}\<close> and no
  backquote, \<^verbatim>\<open>test\<close> succeeds on exactly the steps that the pattern matches from the
  start of the line to its end.
\<close>

theorem used_iff_some_step_matches:
  assumes "main eng stepFiles featureTexts = Inr r"
      and "all_feature_steps featureTexts = Inr steps"
      and "u \<in> set (usage_list r)"
      and "regexp (pat u) = Some re"
  shows "used u = Some (\<exists>step \<in> set steps. fst (test eng re step 0))
         \<and> (type (pat u) = Expr \<longrightarrow>
              (\<exists>c. re = Compiled c
                 \<and> source c = cucumberExprToRegex (raw (pat u)) \<and> flags c = i_flags
                 \<and> (\<not> sublist ''{string}'' (raw (pat u)) \<and> BQ \<notin> set (raw (pat u)) \<longrightarrow>
                      (\<forall>step. fst (test eng re step 0) = accepts_whole_line c step))))"
proof -
  from main_usage [OF assms(1)] assms(2) obtain allPatterns li where
    e: "extract_all eng stepFiles 0 = Inr (allPatterns, li)"
    and u: "usage_list r = map (usage_of eng steps) allPatterns" by (metis sum.inject(2))
  from assms(3) u obtain p where p: "p \<in> set allPatterns" and up: "u = usage_of eng steps p" by auto
  from up have pu: "pat u = p" by (auto simp: usage_of_def split: option.splits)
  with assms(4) up have "used u = Some (fst (some_test eng re steps 0))"
    by (simp add: usage_of_def)
  then have a: "used u = Some (\<exists>step \<in> set steps. fst (test eng re step 0))"
    by (simp add: some_test_0)
  have b: "\<exists>c. re = Compiled c
             \<and> source c = cucumberExprToRegex (raw (pat u)) \<and> flags c = i_flags
             \<and> (\<not> sublist ''{string}'' (raw (pat u)) \<and> BQ \<notin> set (raw (pat u)) \<longrightarrow>
                  (\<forall>step. fst (test eng re step 0) = accepts_whole_line c step))"
    if "type (pat u) = Expr"
  proof -
    let ?c = "\<lparr>source = cucumberExprToRegex (raw p), flags = i_flags,
                pattern = compiled_pattern (raw p)\<rparr>"
    from extract_all_ok [OF e p] that pu assms(4)
    have "tryBuildRegExp eng (cucumberExprToRegex (raw p)) ''i'' = Some re"
      by (simp add: pushed_ok_def)
    then have re: "re = Compiled ?c" by (simp add: expression_builds)
    have "fst (test eng re step 0) = accepts_whole_line ?c step"
      if "\<not> sublist ''{string}'' (raw p)" "BQ \<notin> set (raw p)" for step
      using expression_anchored [OF that expression_compiles, of step] re
      by (simp add: test_def)
    with re pu show ?thesis by simp
  qed
  from a b show ?thesis by blast
qed

theorem used_iff_some_step_matches_witness:
  "\<forall>eng. \<exists>r c.
     main eng witness_steps witness_features = Inr r
     \<and> all_feature_steps witness_features = Inr [''I click submit'']
     \<and> regexp (pat (usage_list r ! 1)) = Some (Compiled c)
     \<and> type (pat (usage_list r ! 1)) = Expr
     \<and> raw (pat (usage_list r ! 1)) = ''I click {word}''
     \<and> used (usage_list r ! 1) = Some True
     \<and> source c = cucumberExprToRegex ''I click {word}''
     \<and> flags c = i_flags
     \<and> accepts_whole_line c ''I click submit''"
proof
  fix eng
  have v: "(case main eng witness_steps witness_features of
              Inl e \<Rightarrow> None
            | Inr r \<Rightarrow> Some (map (\<lambda>u. (type (pat u), raw (pat u), regexp (pat u) \<noteq> None, used u))
                              (usage_list r)))
           = Some [(Unparsed, ''foo'', False, None), (Expr, ''I click {word}'', True, Some True)]"
    by code_simp
  have s: "all_feature_steps witness_features = Inr [''I click submit'']"
    by code_simp
  have n: "\<not> sublist ''{string}'' ''I click {word}''" "BQ \<notin> set ''I click {word}''"
    by (simp_all add: sublist_Cons_right)
  from v obtain r where r: "main eng witness_steps witness_features = Inr r"
    by (cases "main eng witness_steps witness_features") auto
  with v have m: "map (\<lambda>u. (type (pat u), raw (pat u), regexp (pat u) \<noteq> None, used u)) (usage_list r)
                    = [(Unparsed, ''foo'', False, None), (Expr, ''I click {word}'', True, Some True)]"
    by simp
  have len: "length (usage_list r) = 2"
    using arg_cong [OF m, where f = length] by simp
  then have u: "usage_list r ! 1 \<in> set (usage_list r)" by simp
  let ?u = "usage_list r ! 1"
  from len have "map (\<lambda>u. (type (pat u), raw (pat u), regexp (pat u) \<noteq> None, used u)) (usage_list r) ! 1
                   = (type (pat ?u), raw (pat ?u), regexp (pat ?u) \<noteq> None, used ?u)"
    by (intro nth_map) simp
  with m have t: "type (pat ?u) = Expr" "raw (pat ?u) = ''I click {word}''"
    "used ?u = Some True" and "regexp (pat ?u) \<noteq> None"
    by simp_all
  then obtain re where re: "regexp (pat ?u) = Some re" by auto
  from used_iff_some_step_matches [OF r s u re] t n obtain c where
    c: "re = Compiled c" "source c = cucumberExprToRegex ''I click {word}''" "flags c = i_flags"
    and w: "fst (test eng re ''I click submit'' 0) = accepts_whole_line c ''I click submit''"
    and "Some True = Some (\<exists>step \<in> set [''I click submit'']. fst (test eng re step 0))"
    by auto
  then have "accepts_whole_line c ''I click submit''" by simp
  with r s re c t show "\<exists>r c.
     main eng witness_steps witness_features = Inr r
     \<and> all_feature_steps witness_features = Inr [''I click submit'']
     \<and> regexp (pat (usage_list r ! 1)) = Some (Compiled c)
     \<and> type (pat (usage_list r ! 1)) = Expr
     \<and> raw (pat (usage_list r ! 1)) = ''I click {word}''
     \<and> used (usage_list r ! 1) = Some True
     \<and> source c = cucumberExprToRegex ''I click {word}''
     \<and> flags c = i_flags
     \<and> accepts_whole_line c ''I click submit''"
    by blast
qed

text \<open>
  C5, the claim as stated fails, for both kinds of pattern: the regex pattern
  \<^verbatim>\<open>/click/\<close> is used by the step \<^verbatim>\<open>I click submit\<close>, and the expression
  \<^verbatim>\<open>see {string}\<close> by the step \<^verbatim>\<open>x 'y' z\<close>, and neither pattern matches either step
  from the start of the line to its end.
\<close>

theorem unanchored_patterns_used:
  "\<forall>eng.
     all_feature_steps unanchored_features = Inr [''I click submit'', ''x '' @ [SQ] @ ''y'' @ [SQ] @ '' z'']
     \<and> (case main eng unanchored_steps unanchored_features of
          Inl e \<Rightarrow> None
        | Inr r \<Rightarrow>
            Some (map (\<lambda>u. (type (pat u), raw (pat u), used u,
                            (case regexp (pat u) of
                               Some (Compiled c) \<Rightarrow>
                                 [accepts_whole_line c ''I click submit'',
                                  accepts_whole_line c (''x '' @ [SQ] @ ''y'' @ [SQ] @ '' z'')]
                             | _ \<Rightarrow> [])))
                      (usage_list r)))
       = Some [(Regex, ''/click/'', Some True, [False, False]),
               (Expr, ''see {string}'', Some True, [False, False])]"
proof
  fix eng
  show "all_feature_steps unanchored_features = Inr [''I click submit'', ''x '' @ [SQ] @ ''y'' @ [SQ] @ '' z'']
     \<and> (case main eng unanchored_steps unanchored_features of
          Inl e \<Rightarrow> None
        | Inr r \<Rightarrow>
            Some (map (\<lambda>u. (type (pat u), raw (pat u), used u,
                            (case regexp (pat u) of
                               Some (Compiled c) \<Rightarrow>
                                 [accepts_whole_line c ''I click submit'',
                                  accepts_whole_line c (''x '' @ [SQ] @ ''y'' @ [SQ] @ '' z'')]
                             | _ \<Rightarrow> [])))
                      (usage_list r)))
       = Some [(Regex, ''/click/'', Some True, [False, False]),
               (Expr, ''see {string}'', Some True, [False, False])]"
    by code_simp
qed

text \<open>
  C6 (code bug). On the step file and the scenario file of the example the report has
  2 parsed patterns, both unused, and 0 unparsed: the regex declaration is lost (its
  literal has a space), and the \<^verbatim>\<open>{int}\<close> expression does not match its step.
\<close>

theorem end_to_end_report:
  "(case main eng [(''a.steps.js'', example_steps)] [example_feature] of
      Inl e \<Rightarrow> None
    | Inr r \<Rightarrow> Some (map (\<lambda>u. (type (pat u), raw (pat u), used u)) (usage_list r),
                      length (parsed r), map (\<lambda>u. raw (pat u)) (unused r),
                      length (skipped_list r)))
   = Some ([(Expr, ''I do {int} things'', Some False),
            (Expr, ''I navigate to the {word} page'', Some False)],
           2, [''I do {int} things'', ''I navigate to the {word} page''], 0)"
  by code_simp

text \<open>
  C7 (confirmed). In the results, \<^verbatim>\<open>used\<close> is \<^verbatim>\<open>null\<close> (usage Unknown) iff the
  pattern has no matcher; every unparsed pattern has usage Unknown, and every pattern
  with a matcher is used or unused.
\<close>

theorem unknown_iff_no_matcher:
  assumes "main eng stepFiles featureTexts = Inr r" and "u \<in> set (usage_list r)"
  shows "(used u = None) = (regexp (pat u) = None)
         \<and> (type (pat u) = Unparsed \<longrightarrow> used u = None)
         \<and> (regexp (pat u) \<noteq> None \<longrightarrow> used u = Some True \<or> used u = Some False)"
proof -
  from main_usage [OF assms(1)] obtain allPatterns li steps where
    e: "extract_all eng stepFiles 0 = Inr (allPatterns, li)"
    and u: "usage_list r = map (usage_of eng steps) allPatterns" by metis
  from assms(2) u obtain p where p: "p \<in> set allPatterns" and up: "u = usage_of eng steps p" by auto
  from extract_all_ok [OF e p] have ok: "(type p = Unparsed) = (regexp p = None)"
    by (simp add: pushed_ok_def)
  from up have "pat u = p" "(used u = None) = (regexp p = None)"
    by (auto simp: usage_of_def split: option.splits)
  with ok show ?thesis by auto
qed

theorem unknown_iff_no_matcher_witness:
  "\<forall>eng. (case main eng witness_steps witness_features of
      Inl e \<Rightarrow> False
    | Inr r \<Rightarrow>
        length (usage_list r) = 2
        \<and> (used (usage_list r ! 0) = None) = (regexp (pat (usage_list r ! 0)) = None)
        \<and> (used (usage_list r ! 1) = None) = (regexp (pat (usage_list r ! 1)) = None)
        \<and> map (\<lambda>u. (type (pat u), used u)) (usage_list r)
            = [(Unparsed, None), (Expr, Some True)])"
proof
  fix eng
  have v: "(case main eng witness_steps witness_features of
              Inl e \<Rightarrow> None
            | Inr r \<Rightarrow> Some (map (\<lambda>u. (type (pat u), used u)) (usage_list r)))
           = Some [(Unparsed, None), (Expr, Some True)]"
    by code_simp
  then obtain r where r: "main eng witness_steps witness_features = Inr r"
    by (cases "main eng witness_steps witness_features") auto
  with v have m: "map (\<lambda>u. (type (pat u), used u)) (usage_list r)
                    = [(Unparsed, None), (Expr, Some True)]" by simp
  have len: "length (usage_list r) = 2"
    using arg_cong [OF m, where f = length] by simp
  then have "usage_list r ! 0 \<in> set (usage_list r)" "usage_list r ! 1 \<in> set (usage_list r)"
    by simp_all
  from unknown_iff_no_matcher [OF r this(1)] unknown_iff_no_matcher [OF r this(2)] m len
  show "(case main eng witness_steps witness_features of
      Inl e \<Rightarrow> False
    | Inr r \<Rightarrow>
        length (usage_list r) = 2
        \<and> (used (usage_list r ! 0) = None) = (regexp (pat (usage_list r ! 0)) = None)
        \<and> (used (usage_list r ! 1) = None) = (regexp (pat (usage_list r ! 1)) = None)
        \<and> map (\<lambda>u. (type (pat u), used u)) (usage_list r)
            = [(Unparsed, None), (Expr, Some True)])"
    unfolding r by simp
qed

text \<open>
  C8 (confirmed). Two successive calls of the extractor on the same source text and file
  identifier return the same list of patterns in the same order: the first call, made
  with \<^verbatim>\<open>lastIndex\<close> 0, ends without an exception and leaves the \<^verbatim>\<open>lastIndex\<close> of the
  shared \<^verbatim>\<open>STEP_CALL_RE\<close> at 0 again, and nothing else outlives a call.
\<close>

theorem extraction_idempotent: "\<exists>ps. extract_twice eng src f 0 = Inr (ps, ps)"
proof -
  from extract_loop_total [of eng src f "[]" 0] obtain ps where
    "extractStepPatternsFromSource eng src f 0 = Inr (ps, 0)"
    by (auto simp: extractStepPatternsFromSource_def)
  then show ?thesis by (auto simp: extract_twice_def)
qed

theorem extraction_idempotent_witness:
  "\<forall>eng. \<exists>ps. extract_twice eng ''Given(foo, fn)'' ''a.steps.js'' 0 = Inr (ps, ps)"
  using extraction_idempotent by blast



text \<open>
  C10 (confirmed). The group that stands for \<^verbatim>\<open>{string}\<close> is a disjunction without
  parentheses, so the pattern compiled for a body with \<^verbatim>\<open>{string}\<close> is a disjunction
  at the top, and one of its alternatives is the text in single quotes alone, with
  neither \<^verbatim>\<open>^\<close> nor \<^verbatim>\<open>$\<close> nor any of the other text of the body. Hence every step
  with two single quotes in it uses the pattern, whatever else the step and the body
  hold.
\<close>

theorem string_parameter_unanchored:
  assumes "sublist ''{string}'' e"
  shows "\<exists>c alts k.
           tryBuildRegExp eng (cucumberExprToRegex e) ''i'' = Some (Compiled c)
           \<and> pattern c = mk_alt alts
           \<and> RSeq (RChar SQ) (RSeq (RGroup k (RRep 0 None True (RSet True [CChar SQ]))) (RChar SQ))
               \<in> set alts
           \<and> expr_used eng e (a @ [SQ] @ b @ [SQ] @ d) = [Some True]"
proof -
  obtain alts terms n where p: "punits (final_units e) ([], [RBol], 0) = (alts, terms, n)"
    by (cases "punits (final_units e) ([], [RBol], 0)") auto
  from punits_string [OF UString_final_units [OF assms], of "[]" "[RBol]" 0] p
  obtain k where k: "mk_seq (quoted SQ k) \<in> set alts" by auto
  have s: "search i_flags (compiled_pattern e) None (a @ [SQ] @ b @ [SQ] @ d) \<noteq> None"
  proof (cases "SQ \<in> set b")
    case True
    then obtain b1 b2 where b: "b = b1 @ SQ # b2" and n: "SQ \<notin> set b1"
      by (auto dest: split_list_first)
    from string_parameter_search [OF assms n, of a "b2 @ SQ # d"] b show ?thesis by simp
  next
    case False
    from string_parameter_search [OF assms False, of a d] show ?thesis by simp
  qed
  let ?c = "\<lparr>source = cucumberExprToRegex e, flags = i_flags, pattern = compiled_pattern e\<rparr>"
  have "tryBuildRegExp eng (cucumberExprToRegex e) ''i'' = Some (Compiled ?c)"
    by (rule expression_builds)
  moreover from p have "pattern ?c = mk_alt (alts @ [mk_seq (terms @ [REol])])"
    by (simp add: compiled_pattern_def close_group_def)
  moreover from k
  have "RSeq (RChar SQ) (RSeq (RGroup k (RRep 0 None True (RSet True [CChar SQ]))) (RChar SQ))
          \<in> set (alts @ [mk_seq (terms @ [REol])])"
    by (simp add: quoted_def)
  moreover from s have "expr_used eng e (a @ [SQ] @ b @ [SQ] @ d) = [Some True]"
    by (simp add: expr_used_test)
  ultimately show ?thesis by blast
qed

theorem string_parameter_unanchored_witness:
  "sublist ''{string}'' ''I see {string}''
   \<and> (\<forall>eng. \<exists>c alts k.
          tryBuildRegExp eng (cucumberExprToRegex ''I see {string}'') ''i'' = Some (Compiled c)
          \<and> pattern c = mk_alt alts
          \<and> RSeq (RChar SQ) (RSeq (RGroup k (RRep 0 None True (RSet True [CChar SQ]))) (RChar SQ))
              \<in> set alts
          \<and> expr_used eng ''I see {string}'' (''He said '' @ [SQ] @ ''no'' @ [SQ] @ '' twice'')
              = [Some True])"
proof -
  have s: "sublist ''{string}'' ''I see {string}''"
    by (simp add: sublist_Cons_right)
  from string_parameter_unanchored [OF s, of _ "''He said ''" "''no''" "'' twice''"] s
  show ?thesis by blast
qed

end
